theory Spec2Isabelle
  imports Complex_Main "HOL-Library.Sublist"
begin

section \<open>Data model\<close>

text \<open>
  Mod identifiers, paths rendered as text, fingerprints and version strings are Python
  \<open>str\<close> values; they are modelled as \<open>string\<close> over ASCII characters.
\<close>

type_synonym mod_id_t = string

text \<open>The exceptions of \<open>core/exceptions.py\<close> and the Python built-ins the modelled code can
  raise. Message texts are left out; the payload that callers can inspect is kept.\<close>

datatype error =
    CircularDependencyError "mod_id_t list"
  | MissingDependencyError mod_id_t mod_id_t string
  | KeyError string
  | ValueError
  | TypeError
  | OSError
  | DeploymentError
  | DeploymentFailedError
  | GamePathInvalidError
  | RollbackError

record ModDependency =
  mod_id :: mod_id_t
  version_constraint :: string

text \<open>A filesystem path is the list of its components below the filesystem root.\<close>

type_synonym path = "string list"

text \<open>The fields of \<open>Mod\<close> that the resolver and the deployment engine read. The field
  \<open>id\<close> of the source is called \<open>id_mod\<close> here.\<close>

record Mod =
  id_mod :: mod_id_t
  name :: string
  version :: string
  install_path :: "path option"
  dependencies :: "ModDependency list"
  config_files :: "string list"
  enabled :: bool
  load_order :: int

text \<open>\<open>str.split(sep)\<close> for a one-character separator: never returns an empty list.\<close>

fun split_on :: "char \<Rightarrow> string \<Rightarrow> string list" where
  "split_on c [] = [[]]"
| "split_on c (x # xs) =
     (if x = c then [] # split_on c xs
      else (case split_on c xs of [] \<Rightarrow> [[x]] | w # ws \<Rightarrow> (x # w) # ws))"


section \<open>Dependency resolver (\<open>services/dependency_resolver.py\<close>)\<close>

text \<open>
  A Python \<open>set\<close> of identifiers is a duplicate-free list. A \<open>for\<close> loop over a set
  enumerates its elements in an order the interpreter chooses (it depends on string
  hashing); that order is the parameter \<open>it\<close> of the functions below, which may permute
  the elements in any way.
\<close>

type_synonym id_set = "mod_id_t list"
type_synonym set_iter = "id_set \<Rightarrow> mod_id_t list"

definition set_add :: "mod_id_t \<Rightarrow> id_set \<Rightarrow> id_set" where
  "set_add x s = (if x \<in> set s then s else s @ [x])"

text \<open>The graph is a \<open>defaultdict(set)\<close>: keys in insertion order, each with the set of
  identifiers it depends on.\<close>

type_synonym graph = "(mod_id_t \<times> id_set) list"

definition graph_keys :: "graph \<Rightarrow> mod_id_t list" where
  "graph_keys g = map fst g"

text \<open>\<open>graph[k]\<close> for a key that is present.\<close>

definition graph_get :: "graph \<Rightarrow> mod_id_t \<Rightarrow> id_set" where
  "graph_get g k = (case map_of g k of None \<Rightarrow> [] | Some s \<Rightarrow> s)"

text \<open>\<open>graph[k]\<close> in general: a \<open>defaultdict\<close> inserts a missing key with an empty set.\<close>

definition graph_getitem :: "graph \<Rightarrow> mod_id_t \<Rightarrow> id_set \<times> graph" where
  "graph_getitem g k = (case map_of g k of None \<Rightarrow> ([], g @ [(k, [])]) | Some s \<Rightarrow> (s, g))"

text \<open>\<open>graph[k].add(d)\<close> for a key that is present.\<close>

definition graph_add :: "graph \<Rightarrow> mod_id_t \<Rightarrow> mod_id_t \<Rightarrow> graph" where
  "graph_add g k d = map (\<lambda>(k', s). if k' = k then (k', set_add d s) else (k', s)) g"

type_synonym registry = "mod_id_t \<rightharpoonup> Mod"

definition register_mod :: "registry \<Rightarrow> Mod \<Rightarrow> registry" where
  "register_mod reg m = reg(id_mod m \<mapsto> m)"

definition register_mods :: "registry \<Rightarrow> Mod list \<Rightarrow> registry" where
  "register_mods reg mods = fold (\<lambda>m r. register_mod r m) mods reg"

subsection \<open>\<open>_build_dependency_graph\<close>\<close>

fun add_dependencies ::
  "mod_id_t set \<Rightarrow> Mod \<Rightarrow> ModDependency list \<Rightarrow> graph \<Rightarrow> error + graph" where
  "add_dependencies mod_ids m [] g = Inr g"
| "add_dependencies mod_ids m (dep # deps) g =
     (if mod_id dep \<notin> mod_ids
      then Inl (MissingDependencyError (id_mod m) (mod_id dep) (version_constraint dep))
      else add_dependencies mod_ids m deps (graph_add g (id_mod m) (mod_id dep)))"

fun build_loop :: "mod_id_t set \<Rightarrow> Mod list \<Rightarrow> graph \<Rightarrow> error + graph" where
  "build_loop mod_ids [] g = Inr g"
| "build_loop mod_ids (m # ms) g =
     (let g1 = (if id_mod m \<in> set (graph_keys g) then g else g @ [(id_mod m, [])])
      in case add_dependencies mod_ids m (dependencies m) g1 of
           Inl e \<Rightarrow> Inl e
         | Inr g2 \<Rightarrow> build_loop mod_ids ms g2)"

definition build_dependency_graph :: "Mod list \<Rightarrow> error + graph" where
  "build_dependency_graph mods = build_loop (set (map id_mod mods)) mods []"

subsection \<open>\<open>_check_circular_dependencies\<close>\<close>

datatype color = WHITE | GRAY | BLACK

type_synonym colors = "mod_id_t \<rightharpoonup> color"

text \<open>
  The nested function \<open>dfs\<close> and its loop over the neighbours. The recursion is bounded by
  a depth budget: \<open>None\<close> means the budget ran out. \<open>check_circular_dependencies\<close> gives a
  budget of one more than the number of nodes, which is shown below never to run out.
  Every call receives its own copy of the path (\<open>path.copy()\<close>), so the path is
  passed down unchanged. The
  interpreter's own recursion limit is a resource bound and is not modelled.
\<close>

fun dfs :: "set_iter \<Rightarrow> graph \<Rightarrow> nat \<Rightarrow> colors \<Rightarrow> mod_id_t \<Rightarrow> mod_id_t list
              \<Rightarrow> (error + colors) option"
  and dfs_neighbors :: "set_iter \<Rightarrow> graph \<Rightarrow> nat \<Rightarrow> colors \<Rightarrow> mod_id_t list \<Rightarrow> mod_id_t list
              \<Rightarrow> (error + colors) option" where
  "dfs it g 0 colors node path = None"
| "dfs it g (Suc n) colors node path =
     (case colors node of
        None \<Rightarrow> Some (Inl (KeyError node))
      | Some GRAY \<Rightarrow>
          (if node \<in> set path
           then Some (Inl (CircularDependencyError (dropWhile (\<lambda>x. x \<noteq> node) path @ [node])))
           else Some (Inl ValueError))
      | Some BLACK \<Rightarrow> Some (Inr colors)
      | Some WHITE \<Rightarrow>
          (case dfs_neighbors it g n (colors(node \<mapsto> GRAY)) (it (graph_get g node)) (path @ [node]) of
             None \<Rightarrow> None
           | Some (Inl e) \<Rightarrow> Some (Inl e)
           | Some (Inr colors') \<Rightarrow> Some (Inr (colors'(node \<mapsto> BLACK)))))"
| "dfs_neighbors it g n colors [] path = Some (Inr colors)"
| "dfs_neighbors it g n colors (neighbor # rest) path =
     (case dfs it g n colors neighbor path of
        None \<Rightarrow> None
      | Some (Inl e) \<Rightarrow> Some (Inl e)
      | Some (Inr colors') \<Rightarrow> dfs_neighbors it g n colors' rest path)"

fun check_loop :: "set_iter \<Rightarrow> graph \<Rightarrow> nat \<Rightarrow> colors \<Rightarrow> mod_id_t list \<Rightarrow> (error + colors) option" where
  "check_loop it g n colors [] = Some (Inr colors)"
| "check_loop it g n colors (node # nodes) =
     (case colors node of
        None \<Rightarrow> Some (Inl (KeyError node))
      | Some WHITE \<Rightarrow>
          (case dfs it g n colors node [] of
             None \<Rightarrow> None
           | Some (Inl e) \<Rightarrow> Some (Inl e)
           | Some (Inr colors') \<Rightarrow> check_loop it g n colors' nodes)
      | Some _ \<Rightarrow> check_loop it g n colors nodes)"

definition check_circular_dependencies :: "set_iter \<Rightarrow> graph \<Rightarrow> (error + unit) option" where
  "check_circular_dependencies it g =
     (let colors = map_of (map (\<lambda>node. (node, WHITE)) (graph_keys g))
      in case check_loop it g (length g + 1) colors (graph_keys g) of
           None \<Rightarrow> None
         | Some (Inl e) \<Rightarrow> Some (Inl e)
         | Some (Inr _) \<Rightarrow> Some (Inr ()))"

subsection \<open>\<open>_topological_sort\<close>\<close>

type_synonym in_degree_t = "mod_id_t \<rightharpoonup> int"

definition count_edge :: "mod_id_t \<Rightarrow> in_degree_t \<Rightarrow> in_degree_t" where
  "count_edge neighbor in_degree =
     in_degree(neighbor \<mapsto> (case in_degree neighbor of None \<Rightarrow> 0 | Some k \<Rightarrow> k) + 1)"

definition calc_in_degree :: "set_iter \<Rightarrow> graph \<Rightarrow> in_degree_t" where
  "calc_in_degree it g =
     fold (\<lambda>node in_degree. fold count_edge (it (graph_get g node)) in_degree)
       (graph_keys g)
       (map_of (map (\<lambda>node. (node, 0)) (graph_keys g)))"

text \<open>The inner \<open>for\<close> loop of the \<open>while\<close> loop: \<open>in_degree[neighbor] -= 1\<close> raises
  \<open>KeyError\<close> on a missing key.\<close>

fun reduce_in_degree ::
  "mod_id_t list \<Rightarrow> in_degree_t \<Rightarrow> mod_id_t list \<Rightarrow> error + (in_degree_t \<times> mod_id_t list)" where
  "reduce_in_degree [] in_degree queue = Inr (in_degree, queue)"
| "reduce_in_degree (neighbor # rest) in_degree queue =
     (case in_degree neighbor of
        None \<Rightarrow> Inl (KeyError neighbor)
      | Some k \<Rightarrow>
          reduce_in_degree rest (in_degree(neighbor \<mapsto> k - 1))
            (if k - 1 = 0 then queue @ [neighbor] else queue))"

text \<open>The \<open>while queue\<close> loop, with a budget of iterations (\<open>None\<close> when it runs out);
  \<open>topological_sort\<close> gives one more than the number of nodes.\<close>

fun kahn_loop ::
  "set_iter \<Rightarrow> nat \<Rightarrow> graph \<Rightarrow> mod_id_t list \<Rightarrow> in_degree_t \<Rightarrow> mod_id_t list
     \<Rightarrow> (error + (mod_id_t list \<times> graph)) option" where
  "kahn_loop it 0 g queue in_degree sorted_list = None"
| "kahn_loop it (Suc n) g [] in_degree sorted_list = Some (Inr (sorted_list, g))"
| "kahn_loop it (Suc n) g (node # queue) in_degree sorted_list =
     (case graph_getitem g node of
        (neighbors, g') \<Rightarrow>
          (case reduce_in_degree (it neighbors) in_degree queue of
             Inl e \<Rightarrow> Some (Inl e)
           | Inr (in_degree', queue') \<Rightarrow>
               kahn_loop it n g' queue' in_degree' (sorted_list @ [node])))"

definition topological_sort :: "set_iter \<Rightarrow> graph \<Rightarrow> (error + mod_id_t list) option" where
  "topological_sort it g =
     (let in_degree = calc_in_degree it g;
          queue = filter (\<lambda>node. in_degree node = Some 0) (graph_keys g)
      in case kahn_loop it (length g + 1) g queue in_degree [] of
           None \<Rightarrow> None
         | Some (Inl e) \<Rightarrow> Some (Inl e)
         | Some (Inr (sorted_list, g')) \<Rightarrow>
             if length sorted_list \<noteq> length g'
             then Some (Inl (CircularDependencyError
                    (it (filter (\<lambda>k. k \<notin> set sorted_list) (remdups (graph_keys g'))))))
             else Some (Inr (rev sorted_list)))"

subsection \<open>\<open>resolve_load_order\<close>\<close>

definition resolve_load_order ::
  "set_iter \<Rightarrow> registry \<Rightarrow> Mod list \<Rightarrow> (error + mod_id_t list) option \<times> registry" where
  "resolve_load_order it reg mods =
     (let reg' = register_mods reg mods
      in case build_dependency_graph mods of
           Inl e \<Rightarrow> (Some (Inl e), reg')
         | Inr graph \<Rightarrow>
             (case check_circular_dependencies it graph of
                None \<Rightarrow> (None, reg')
              | Some (Inl e) \<Rightarrow> (Some (Inl e), reg')
              | Some (Inr _) \<Rightarrow> (topological_sort it graph, reg')))"

subsection \<open>\<open>get_all_dependencies\<close>\<close>

text \<open>The breadth-first \<open>while queue\<close> loop; \<open>None\<close> stands for a loop that does not end.\<close>

partial_function (option) bfs_loop ::
  "registry \<Rightarrow> mod_id_t \<Rightarrow> mod_id_t list \<Rightarrow> mod_id_t set \<Rightarrow> mod_id_t list \<Rightarrow> mod_id_t list option" where
  "bfs_loop reg origin queue visited deps =
     (case queue of
        [] \<Rightarrow> Some deps
      | current_id # rest \<Rightarrow>
          if current_id \<in> visited \<or> current_id = origin
          then bfs_loop reg origin rest visited deps
          else (case reg current_id of
                  None \<Rightarrow> bfs_loop reg origin rest (insert current_id visited) (deps @ [current_id])
                | Some current_mod \<Rightarrow>
                    bfs_loop reg origin
                      (rest @ filter (\<lambda>d. d \<notin> insert current_id visited)
                                (map mod_id (dependencies current_mod)))
                      (insert current_id visited) (deps @ [current_id])))"

definition get_all_dependencies :: "registry \<Rightarrow> mod_id_t \<Rightarrow> bool \<Rightarrow> mod_id_t list option" where
  "get_all_dependencies reg m recursive =
     (case reg m of
        None \<Rightarrow> Some []
      | Some md \<Rightarrow>
          if \<not> recursive then Some (map mod_id (dependencies md))
          else bfs_loop reg m [m] {} [])"

subsection \<open>\<open>auto_resolve_dependencies\<close>\<close>

type_synonym catalog = "mod_id_t \<rightharpoonup> Mod"

text \<open>The inner \<open>for dep in mod.dependencies\<close> loop.\<close>

fun enqueue_dependencies ::
  "ModDependency list \<Rightarrow> id_set \<Rightarrow> mod_id_t list \<Rightarrow> id_set \<times> mod_id_t list" where
  "enqueue_dependencies [] required to_process = (required, to_process)"
| "enqueue_dependencies (dep # deps) required to_process =
     (if mod_id dep \<notin> set required
      then enqueue_dependencies deps (set_add (mod_id dep) required) (to_process @ [mod_id dep])
      else enqueue_dependencies deps required to_process)"

partial_function (option) collect_loop ::
  "catalog \<Rightarrow> mod_id_t list \<Rightarrow> id_set \<Rightarrow> registry \<Rightarrow> (id_set \<times> registry) option" where
  "collect_loop available_mods to_process required reg =
     (case to_process of
        [] \<Rightarrow> Some (required, reg)
      | current_id # rest \<Rightarrow>
          (case available_mods current_id of
             None \<Rightarrow> collect_loop available_mods rest required reg
           | Some m \<Rightarrow>
               (case enqueue_dependencies (dependencies m) required rest of
                  (required', to_process') \<Rightarrow>
                    collect_loop available_mods to_process' required' (register_mod reg m))))"

text \<open>\<open>[available_mods[mid] for mid in required if mid in available_mods]\<close>\<close>

definition mods_to_sort :: "set_iter \<Rightarrow> catalog \<Rightarrow> id_set \<Rightarrow> Mod list" where
  "mods_to_sort it available_mods required =
     concat (map (\<lambda>mid. case available_mods mid of None \<Rightarrow> [] | Some m \<Rightarrow> [m]) (it required))"

definition auto_resolve_dependencies ::
  "set_iter \<Rightarrow> registry \<Rightarrow> mod_id_t list \<Rightarrow> catalog
     \<Rightarrow> (error + mod_id_t list) option \<times> registry" where
  "auto_resolve_dependencies it reg mod_ids available_mods =
     (case collect_loop available_mods mod_ids (fold set_add mod_ids []) reg of
        None \<Rightarrow> (None, reg)
      | Some (required, reg') \<Rightarrow>
          resolve_load_order it reg' (mods_to_sort it available_mods required))"


declare bfs_loop.simps [code]
declare collect_loop.simps [code]

subsection \<open>Notions used to state the resolver's properties\<close>

text \<open>An iteration order enumerates every element of a set exactly once.\<close>

definition set_order :: "set_iter \<Rightarrow> bool" where
  "set_order it \<longleftrightarrow> (\<forall>s. distinct s \<longrightarrow> distinct (it s) \<and> set (it s) = set s)"

text \<open>The dependency edges declared by a list of mods: the pair \<open>(m, d)\<close> says that \<open>m\<close>
  depends on \<open>d\<close>.\<close>

definition depends_on :: "Mod list \<Rightarrow> (mod_id_t \<times> mod_id_t) set" where
  "depends_on mods =
     {(id_mod m, mod_id d) | m d. m \<in> set mods \<and> d \<in> set (dependencies m)}"

text \<open>Every declared dependency names a mod of the list.\<close>

definition deps_present :: "Mod list \<Rightarrow> bool" where
  "deps_present mods \<longleftrightarrow>
     (\<forall>m \<in> set mods. \<forall>d \<in> set (dependencies m). mod_id d \<in> id_mod ` set mods)"

text \<open>The edges of a graph, and graphs as \<open>_build_dependency_graph\<close> makes them: no key
  twice, sets without repetition, every neighbour a key.\<close>

definition edges :: "graph \<Rightarrow> (mod_id_t \<times> mod_id_t) set" where
  "edges g = {(k, d). \<exists>s. (k, s) \<in> set g \<and> d \<in> set s}"

definition wf_graph :: "graph \<Rightarrow> bool" where
  "wf_graph g \<longleftrightarrow>
     distinct (map fst g) \<and> (\<forall>(k, s) \<in> set g. distinct s \<and> set s \<subseteq> set (map fst g))"

text \<open>\<open>a\<close> stands at a smaller index than \<open>b\<close> in \<open>xs\<close>.\<close>

definition before :: "'a list \<Rightarrow> 'a \<Rightarrow> 'a \<Rightarrow> bool" where
  "before xs a b \<longleftrightarrow> (\<exists>i j. i < j \<and> j < length xs \<and> xs ! i = a \<and> xs ! j = b)"

text \<open>A chain of at least one edge that returns to its first element.\<close>

definition valid_cycle :: "(mod_id_t \<times> mod_id_t) set \<Rightarrow> mod_id_t list \<Rightarrow> bool" where
  "valid_cycle E chain \<longleftrightarrow>
     2 \<le> length chain \<and> hd chain = last chain \<and> successively (\<lambda>a b. (a, b) \<in> E) chain"

text \<open>Invariants of the depth-first search.\<close>

definition whites :: "graph \<Rightarrow> colors \<Rightarrow> nat" where
  "whites g c = length (filter (\<lambda>k. c k = Some WHITE) (map fst g))"

definition black_closed :: "(mod_id_t \<times> mod_id_t) set \<Rightarrow> colors \<Rightarrow> bool" where
  "black_closed E c \<longleftrightarrow> (\<forall>u v. c u = Some BLACK \<longrightarrow> (u, v) \<in> E \<longrightarrow> c v = Some BLACK)"

definition black_acyclic :: "(mod_id_t \<times> mod_id_t) set \<Rightarrow> colors \<Rightarrow> bool" where
  "black_acyclic E c \<longleftrightarrow> (\<forall>u. c u = Some BLACK \<longrightarrow> (u, u) \<notin> E\<^sup>+)"

text \<open>The number of nodes outside \<open>S\<close> that depend on \<open>v\<close>.\<close>

definition indeg :: "graph \<Rightarrow> mod_id_t list \<Rightarrow> mod_id_t \<Rightarrow> int" where
  "indeg g S v = int (length (filter (\<lambda>(u, s). v \<in> set s \<and> u \<notin> set S) g))"

text \<open>A mod with the given identifier and dependencies, for concrete inputs.\<close>

definition mk_mod :: "mod_id_t \<Rightarrow> mod_id_t list \<Rightarrow> Mod" where
  "mk_mod i ds =
     \<lparr>id_mod = i, name = i, version = ''1.0.0'', install_path = None,
      dependencies = map (\<lambda>d. \<lparr>mod_id = d, version_constraint = ''*''\<rparr>) ds,
      config_files = [], enabled = True, load_order = 0\<rparr>"

text \<open>What holds of the colours whenever \<open>dfs\<close> is entered with the recursion path \<open>path\<close>,
  and how a call that returns normally relates the colours before and after.\<close>

definition dfs_inv :: "graph \<Rightarrow> colors \<Rightarrow> mod_id_t list \<Rightarrow> bool" where
  "dfs_inv g c path \<longleftrightarrow>
     dom c = set (map fst g) \<and> black_closed (edges g) c \<and> black_acyclic (edges g) c
     \<and> (\<forall>x. c x = Some GRAY \<longrightarrow> x \<in> set path)"

definition dfs_post :: "graph \<Rightarrow> colors \<Rightarrow> colors \<Rightarrow> bool" where
  "dfs_post g c c' \<longleftrightarrow>
     dom c' = set (map fst g) \<and> whites g c' \<le> whites g c
     \<and> black_closed (edges g) c' \<and> black_acyclic (edges g) c'
     \<and> (\<forall>x. c' x = Some GRAY \<longleftrightarrow> c x = Some GRAY)
     \<and> (\<forall>x. c x = Some BLACK \<longrightarrow> c' x = Some BLACK)"

definition cycle_error :: "(mod_id_t \<times> mod_id_t) set \<Rightarrow> error \<Rightarrow> bool" where
  "cycle_error E e \<longleftrightarrow> (\<exists>chain. e = CircularDependencyError chain \<and> valid_cycle E chain)"

text \<open>The invariant of the \<open>while queue\<close> loop of Kahn's algorithm.\<close>

definition kahn_inv :: "graph \<Rightarrow> mod_id_t list \<Rightarrow> in_degree_t \<Rightarrow> mod_id_t list \<Rightarrow> bool" where
  "kahn_inv g Q D S \<longleftrightarrow>
     distinct (S @ Q) \<and> set (S @ Q) \<subseteq> set (map fst g)
     \<and> (\<forall>v \<in> set (map fst g). D v = Some (indeg g S v))
     \<and> (\<forall>v \<in> set (map fst g). v \<in> set (S @ Q) \<longleftrightarrow> indeg g S v = 0)
     \<and> (\<forall>(m, d) \<in> edges g. d \<in> set S \<longrightarrow> before S m d)"

text \<open>The iteration order that enumerates a set in insertion order, and some mod lists,
  for concrete inputs.\<close>

definition insertion_order :: set_iter where
  "insertion_order s = s"

definition chain_mods :: "Mod list" where
  "chain_mods = [mk_mod ''x-C'' [''x-B''], mk_mod ''x-B'' [''x-A''], mk_mod ''x-A'' []]"

definition mutual_mods :: "Mod list" where
  "mutual_mods = [mk_mod ''x-A'' [''x-B''], mk_mod ''x-B'' [''x-A'']]"

definition self_mods :: "Mod list" where
  "self_mods = [mk_mod ''x-A'' [''x-A'']]"

definition cycle_missing_mods :: "Mod list" where
  "cycle_missing_mods = [mk_mod ''x-A'' [''x-A'', ''x-Z'']]"

definition dep_registry :: registry where
  "dep_registry = [''x-A'' \<mapsto> mk_mod ''x-A'' [''x-B''], ''x-B'' \<mapsto> mk_mod ''x-B'' []]"

definition dangling_catalog :: catalog where
  "dangling_catalog = [''x-X'' \<mapsto> mk_mod ''x-X'' [''x-Y'']]"

definition full_catalog :: catalog where
  "full_catalog = [''x-X'' \<mapsto> mk_mod ''x-X'' [''x-Y''], ''x-Y'' \<mapsto> mk_mod ''x-Y'' []]"


section \<open>Hash cache (\<open>utils/hash_utils.py\<close>)\<close>

text \<open>
  What \<open>Path.stat()\<close> returns, as far as the cache reads it. \<open>st_mtime\<close> is a finite
  float that is only ever compared with \<open>==\<close>, so it is modelled by the real number it
  stands for. The filesystem enters as a function from a file's absolute path to its
  \<open>stat\<close> result, \<open>None\<close> when \<open>stat()\<close> raises \<open>OSError\<close>.
\<close>

record stat_result =
  st_mtime :: real
  st_size :: int

type_synonym stat_env = "string \<Rightarrow> stat_result option"

text \<open>A cache entry is the tuple \<open>(hash, mtime, size)\<close>; the \<open>OrderedDict\<close> is an
  association list, oldest entry first.\<close>

type_synonym cache_entry = "string \<times> real \<times> int"

record HashCache =
  cache :: "(string \<times> cache_entry) list"
  max_size :: int

text \<open>\<open>del self.cache[key]\<close> and \<open>self.cache.move_to_end(key)\<close>, both for a key that is
  present.\<close>

definition cache_del :: "(string \<times> cache_entry) list \<Rightarrow> string \<Rightarrow> (string \<times> cache_entry) list" where
  "cache_del c key = filter (\<lambda>(k, e). k \<noteq> key) c"

definition move_to_end :: "(string \<times> cache_entry) list \<Rightarrow> string \<Rightarrow> (string \<times> cache_entry) list" where
  "move_to_end c key =
     (case map_of c key of None \<Rightarrow> c | Some e \<Rightarrow> cache_del c key @ [(key, e)])"

text \<open>\<open>HashCache.get\<close>: the result and the cache afterwards.\<close>

definition HashCache_get :: "stat_env \<Rightarrow> HashCache \<Rightarrow> string \<Rightarrow> string option \<times> HashCache" where
  "HashCache_get stat hc key =
     (case map_of (cache hc) key of
        None \<Rightarrow> (None, hc)
      | Some (cached_hash, cached_mtime, cached_size) \<Rightarrow>
          (case stat key of
             None \<Rightarrow> (None, hc\<lparr>cache := cache_del (cache hc) key\<rparr>)
           | Some st \<Rightarrow>
               if st_mtime st = cached_mtime \<and> st_size st = cached_size
               then (Some cached_hash, hc\<lparr>cache := move_to_end (cache hc) key\<rparr>)
               else (None, hc\<lparr>cache := cache_del (cache hc) key\<rparr>)))"

text \<open>\<open>HashCache.put\<close>: store, mark as most recently used, evict the oldest entry when
  the cache is over its size.\<close>

definition HashCache_put :: "stat_env \<Rightarrow> HashCache \<Rightarrow> string \<Rightarrow> string \<Rightarrow> HashCache" where
  "HashCache_put stat hc key file_hash =
     (case stat key of
        None \<Rightarrow> hc
      | Some st \<Rightarrow>
          (let c1 = cache_del (cache hc) key @ [(key, (file_hash, st_mtime st, st_size st))];
               c2 = (if int (length c1) > max_size hc then tl c1 else c1)
           in hc\<lparr>cache := c2\<rparr>))"

text \<open>A cache holding one entry, and two states of the file it describes: touched (a
  new modification time, the same size) and untouched.\<close>

definition one_entry_cache :: HashCache where
  "one_entry_cache = \<lparr>cache = [(''/game/a.dll'', (''9f3a'', 100, 42))], max_size = 1000\<rparr>"

definition touched_stat :: stat_env where
  "touched_stat p = (if p = ''/game/a.dll'' then Some \<lparr>st_mtime = 101, st_size = 42\<rparr> else None)"

definition untouched_stat :: stat_env where
  "untouched_stat p = (if p = ''/game/a.dll'' then Some \<lparr>st_mtime = 100, st_size = 42\<rparr> else None)"


section \<open>Filesystem\<close>

text \<open>
  The filesystem is the list of its entries below the root, in the order in which the
  operating system lists them; the root directory itself always exists. Paths are taken
  as written: no \<open>..\<close> is resolved and there are no symbolic links. Permissions are
  not modelled, so an operation fails only for the reasons written out below.
\<close>

datatype node = File string | Dir

type_synonym filesystem = "(path \<times> node) list"

definition lookup :: "filesystem \<Rightarrow> path \<Rightarrow> node option" where
  "lookup fs p = (if p = [] then Some Dir else map_of fs p)"

definition path_exists :: "filesystem \<Rightarrow> path \<Rightarrow> bool" where
  "path_exists fs p \<longleftrightarrow> lookup fs p \<noteq> None"

definition is_file :: "filesystem \<Rightarrow> path \<Rightarrow> bool" where
  "is_file fs p = (case lookup fs p of Some (File c) \<Rightarrow> True | _ \<Rightarrow> False)"

text \<open>\<open>Path.iterdir()\<close> on a directory, and \<open>Path.rglob('*')\<close>: the entries directly
  below, and all entries below.\<close>

definition iterdir :: "filesystem \<Rightarrow> path \<Rightarrow> path list" where
  "iterdir fs p = filter (\<lambda>q. q \<noteq> [] \<and> butlast q = p) (map fst fs)"

definition rglob :: "filesystem \<Rightarrow> path \<Rightarrow> path list" where
  "rglob fs p = filter (\<lambda>q. strict_prefix p q) (map fst fs)"

definition fs_remove :: "filesystem \<Rightarrow> path \<Rightarrow> filesystem" where
  "fs_remove fs p = filter (\<lambda>(q, n). q \<noteq> p) fs"

definition fs_write :: "filesystem \<Rightarrow> path \<Rightarrow> node \<Rightarrow> filesystem" where
  "fs_write fs p n =
     (if map_of fs p = None then fs @ [(p, n)]
      else map (\<lambda>(q, m). if q = p then (q, n) else (q, m)) fs)"

text \<open>\<open>Path.unlink()\<close>: removes a file; raises on a directory or a missing path.\<close>

definition unlink :: "filesystem \<Rightarrow> path \<Rightarrow> error + filesystem" where
  "unlink fs p = (case lookup fs p of Some (File c) \<Rightarrow> Inr (fs_remove fs p) | _ \<Rightarrow> Inl OSError)"

text \<open>\<open>Path.mkdir(parents=True, exist_ok=True)\<close>: makes every missing directory on the
  way; raises when a component exists and is a file.\<close>

fun mkdirs :: "filesystem \<Rightarrow> path list \<Rightarrow> error + filesystem" where
  "mkdirs fs [] = Inr fs"
| "mkdirs fs (d # ds) =
     (case lookup fs d of
        Some (File c) \<Rightarrow> Inl OSError
      | Some Dir \<Rightarrow> mkdirs fs ds
      | None \<Rightarrow> mkdirs (fs @ [(d, Dir)]) ds)"

definition mkdir_parents :: "filesystem \<Rightarrow> path \<Rightarrow> error + filesystem" where
  "mkdir_parents fs p = mkdirs fs (prefixes p)"

text \<open>\<open>shutil.copy2(src, dst)\<close>: the source must be a file; a destination that is a
  directory receives the file under the source's name; the directory that receives the
  file must exist.\<close>

definition copy2 :: "filesystem \<Rightarrow> path \<Rightarrow> path \<Rightarrow> error + filesystem" where
  "copy2 fs src dst =
     (case lookup fs src of
        Some (File c) \<Rightarrow>
          (let target = (case lookup fs dst of Some Dir \<Rightarrow> dst @ [last src] | _ \<Rightarrow> dst)
           in case lookup fs target of
                Some Dir \<Rightarrow> Inl OSError
              | _ \<Rightarrow>
                  (case lookup fs (butlast target) of
                     Some Dir \<Rightarrow> Inr (fs_write fs target (File c))
                   | _ \<Rightarrow> Inl OSError))
      | _ \<Rightarrow> Inl OSError)"

text \<open>\<open>base / s\<close> for a string \<open>s\<close>: the string is cut at \<open>/\<close>; empty components and
  \<open>.\<close> are dropped; a string that starts with \<open>/\<close> replaces the base.\<close>

definition components :: "string \<Rightarrow> path" where
  "components s = filter (\<lambda>c. c \<noteq> [] \<and> c \<noteq> ''.'') (split_on CHR ''/'' s)"

definition join_str :: "path \<Rightarrow> string \<Rightarrow> path" where
  "join_str base s =
     (case s of
        [] \<Rightarrow> base
      | c # cs \<Rightarrow> if c = CHR ''/'' then components s else base @ components s)"

text \<open>
  \<open>calculate_file_hash\<close> of \<open>utils/hash_utils.py\<close>. The digest function of the hashing
  library is the parameter \<open>h\<close>, from a file's content to the hexadecimal digest. A
  missing path hashes to the empty string; opening a directory raises.
\<close>

definition calculate_file_hash :: "(string \<Rightarrow> string) \<Rightarrow> filesystem \<Rightarrow> path \<Rightarrow> error + string" where
  "calculate_file_hash h fs p =
     (case lookup fs p of
        None \<Rightarrow> Inr []
      | Some (File c) \<Rightarrow> Inr (h c)
      | Some Dir \<Rightarrow> Inl OSError)"

section \<open>Deployment engine (\<open>services/deployment_engine.py\<close>)\<close>

text \<open>The fields of \<open>Profile\<close> that the engine reads (\<open>name\<close> and \<open>mods\<close> of the source
  are \<open>profile_name\<close> and \<open>profile_mods\<close> here).\<close>

record Profile =
  profile_name :: string
  profile_mods :: "Mod list"
  game_path :: "path option"
  active :: bool

text \<open>A row of the table \<open>deployment_state\<close>, whose primary key is the file path. The
  database is taken to be reliable: its operations do not fail.\<close>

record db_row =
  file_path :: path
  file_hash :: string
  row_mod_id :: mod_id_t
  row_profile :: string

text \<open>A Python \<open>dict\<close>: keys in insertion order; storing under a key that is present
  keeps the key's position.\<close>

type_synonym ('k, 'v) dict = "('k \<times> 'v) list"

definition dict_set :: "('k, 'v) dict \<Rightarrow> 'k \<Rightarrow> 'v \<Rightarrow> ('k, 'v) dict" where
  "dict_set d k v =
     (if map_of d k = None then d @ [(k, v)]
      else map (\<lambda>(k', v'). if k' = k then (k', v) else (k', v')) d)"

record DeploymentCheckpoint =
  cp_profile_name :: string
  cp_game_path :: path
  backup_path :: path
  deployment_state :: "(path, string) dict"
  files_modified :: "path list"

text \<open>The engine's state: the database table, the filesystem, and the attribute
  \<open>current_checkpoint\<close>.\<close>

record engine =
  db_rows :: "db_row list"
  files :: filesystem
  current_checkpoint :: "DeploymentCheckpoint option"

text \<open>What the engine takes from outside: the digest function, the directory under
  \<open>Settings.BACKUPS_DIR\<close> that a checkpoint made now would get (its name comes from the
  clock), and \<open>_deploy_configs\<close>, which belongs to the configuration manager.\<close>

record env =
  hash_fn :: "string \<Rightarrow> string"
  now_backup_path :: path
  deploy_configs :: "engine \<Rightarrow> Profile \<Rightarrow> (error + unit) \<times> engine"

text \<open>The progress callback: absent, or a function that may raise.\<close>

type_synonym progress_callback = "(int \<Rightarrow> int \<Rightarrow> string \<Rightarrow> error option) option"

definition call_progress :: "progress_callback \<Rightarrow> int \<Rightarrow> int \<Rightarrow> string \<Rightarrow> error option" where
  "call_progress cb cur tot msg = (case cb of None \<Rightarrow> None | Some f \<Rightarrow> f cur tot msg)"

definition BEPINEX_PLUGINS_DIR :: string where
  "BEPINEX_PLUGINS_DIR = ''BepInEx/plugins''"

definition AUTO_BACKUP_BEFORE_DEPLOY :: bool where
  "AUTO_BACKUP_BEFORE_DEPLOY = True"

subsection \<open>Database operations\<close>

definition save_deployment_state ::
  "db_row list \<Rightarrow> path \<Rightarrow> string \<Rightarrow> mod_id_t \<Rightarrow> string \<Rightarrow> db_row list" where
  "save_deployment_state rows p h m pn =
     filter (\<lambda>r. file_path r \<noteq> p) rows
       @ [\<lparr>file_path = p, file_hash = h, row_mod_id = m, row_profile = pn\<rparr>]"

definition get_deployment_state :: "db_row list \<Rightarrow> string \<Rightarrow> (path, string) dict" where
  "get_deployment_state rows pn =
     fold (\<lambda>r d. dict_set d (file_path r) (file_hash r))
       (filter (\<lambda>r. pn = [] \<or> row_profile r = pn) rows) []"

definition clear_deployment_state :: "db_row list \<Rightarrow> string \<Rightarrow> db_row list" where
  "clear_deployment_state rows pn = filter (\<lambda>r. \<not> (pn = [] \<or> row_profile r = pn)) rows"

subsection \<open>\<open>validate_game_path\<close> and \<open>_get_mod_files\<close>\<close>

definition validate_game_path :: "filesystem \<Rightarrow> path \<Rightarrow> error + bool" where
  "validate_game_path fs gp =
     (if \<not> path_exists fs gp then Inl GamePathInvalidError
      else if \<not> (\<exists>exe \<in> set [''valheim.exe'', ''valheim'', ''valheim.x86_64''].
                   path_exists fs (gp @ [exe]))
      then Inl GamePathInvalidError
      else Inr True)"

definition metadata_names :: "string list" where
  "metadata_names = [''manifest.json'', ''icon.png'', ''README.md'', ''CHANGELOG.md'']"

definition get_mod_files :: "filesystem \<Rightarrow> Mod \<Rightarrow> path list" where
  "get_mod_files fs m =
     (case install_path m of
        None \<Rightarrow> []
      | Some ip \<Rightarrow>
          if \<not> path_exists fs ip then []
          else filter (\<lambda>item. is_file fs item \<and> last item \<notin> set metadata_names) (rglob fs ip))"

subsection \<open>\<open>calculate_changes\<close>\<close>

record changes =
  to_add :: "path list"
  to_update :: "path list"
  to_remove :: "path list"

text \<open>The destination of a mod's file: \<open>plugins_dir / mod.id / rel_path\<close>.\<close>

definition dst_of :: "path \<Rightarrow> Mod \<Rightarrow> path \<Rightarrow> path \<Rightarrow> path" where
  "dst_of plugins_dir m ip src_file = join_str plugins_dir (id_mod m) @ drop (length ip) src_file"

text \<open>The loop over one mod's files, and the loop over the mods, that fill \<open>new_state\<close>.
  \<open>profile.game_path / ...\<close> raises \<open>TypeError\<close> when the game path is \<open>None\<close>.\<close>

fun state_of_files ::
  "(string \<Rightarrow> string) \<Rightarrow> filesystem \<Rightarrow> path \<Rightarrow> Mod \<Rightarrow> path \<Rightarrow> path list \<Rightarrow> (path, string) dict
     \<Rightarrow> error + (path, string) dict" where
  "state_of_files h fs plugins_dir m ip [] new_state = Inr new_state"
| "state_of_files h fs plugins_dir m ip (src_file # rest) new_state =
     (case calculate_file_hash h fs src_file of
        Inl e \<Rightarrow> Inl e
      | Inr fh \<Rightarrow>
          state_of_files h fs plugins_dir m ip rest
            (dict_set new_state (dst_of plugins_dir m ip src_file) fh))"

fun state_of_mods ::
  "(string \<Rightarrow> string) \<Rightarrow> filesystem \<Rightarrow> Profile \<Rightarrow> Mod list \<Rightarrow> (path, string) dict
     \<Rightarrow> error + (path, string) dict" where
  "state_of_mods h fs profile [] new_state = Inr new_state"
| "state_of_mods h fs profile (m # ms) new_state =
     (case install_path m of
        None \<Rightarrow> state_of_mods h fs profile ms new_state
      | Some ip \<Rightarrow>
          if \<not> path_exists fs ip then state_of_mods h fs profile ms new_state
          else (case game_path profile of
                  None \<Rightarrow> Inl TypeError
                | Some gp \<Rightarrow>
                    (case state_of_files h fs (join_str gp BEPINEX_PLUGINS_DIR) m ip
                            (get_mod_files fs m) new_state of
                       Inl e \<Rightarrow> Inl e
                     | Inr new_state' \<Rightarrow> state_of_mods h fs profile ms new_state')))"

text \<open>The comparison of the stored state with the new state.\<close>

definition compare_states :: "(path, string) dict \<Rightarrow> (path, string) dict \<Rightarrow> changes" where
  "compare_states current_state new_state =
     \<lparr>to_add = map fst (filter (\<lambda>(p, fh). map_of current_state p = None) new_state),
      to_update = map fst (filter (\<lambda>(p, fh). case map_of current_state p of
                                                 None \<Rightarrow> False
                                               | Some fh' \<Rightarrow> fh' \<noteq> fh) new_state),
      to_remove = filter (\<lambda>p. map_of new_state p = None) (map fst current_state)\<rparr>"

definition calculate_changes ::
  "env \<Rightarrow> engine \<Rightarrow> Profile \<Rightarrow> Mod list \<Rightarrow> (error + changes) \<times> engine" where
  "calculate_changes ev eng profile ms =
     (let current_state = get_deployment_state (db_rows eng) (profile_name profile)
      in case state_of_mods (hash_fn ev) (files eng) profile ms [] of
           Inl e \<Rightarrow> (Inl e, eng)
         | Inr new_state \<Rightarrow> (Inr (compare_states current_state new_state), eng))"

subsection \<open>\<open>_remove_file\<close>\<close>

text \<open>
  The \<open>while\<close> loop that removes empty parent directories. An exception ends the whole
  \<open>try\<close> block with the filesystem as it is then: \<open>iterdir()\<close> raises on a file, and
  \<open>rmdir()\<close> raises on the filesystem root.
\<close>

function remove_empty_parents :: "filesystem \<Rightarrow> path \<Rightarrow> filesystem" where
  "remove_empty_parents fs parent =
     (case lookup fs parent of
        None \<Rightarrow> fs
      | Some (File c) \<Rightarrow> fs
      | Some Dir \<Rightarrow>
          if iterdir fs parent \<noteq> [] then fs
          else if parent = [] then fs
          else remove_empty_parents (fs_remove fs parent) (butlast parent))"
  by pat_completeness auto
termination
  by (relation "measure (\<lambda>(fs, parent). length parent)") auto

declare remove_empty_parents.simps [simp del]

definition remove_file :: "filesystem \<Rightarrow> path \<Rightarrow> filesystem" where
  "remove_file fs p =
     (if path_exists fs p
      then (case unlink fs p of
              Inl e \<Rightarrow> fs
            | Inr fs' \<Rightarrow> remove_empty_parents fs' (butlast p))
      else fs)"

subsection \<open>\<open>create_checkpoint\<close>\<close>

text \<open>The loop that copies every deployed file into the backup directory. A loop that
  raises returns the error together with the filesystem as it is at that point.
  \<open>relative_to\<close> raises \<open>ValueError\<close> for a file that is not below the game path.\<close>

fun backup_loop ::
  "filesystem \<Rightarrow> path \<Rightarrow> path \<Rightarrow> path list \<Rightarrow> path list \<Rightarrow> (error + path list) \<times> filesystem" where
  "backup_loop fs gp bp [] backup_files = (Inr backup_files, fs)"
| "backup_loop fs gp bp (src # rest) backup_files =
     (if \<not> path_exists fs src then backup_loop fs gp bp rest backup_files
      else if \<not> prefix gp src then (Inl ValueError, fs)
      else (let dst = bp @ drop (length gp) src
            in case mkdir_parents fs (butlast dst) of
                 Inl e \<Rightarrow> (Inl e, fs)
               | Inr fs1 \<Rightarrow>
                   (case copy2 fs1 src dst of
                      Inl e \<Rightarrow> (Inl e, fs1)
                    | Inr fs2 \<Rightarrow> backup_loop fs2 gp bp rest (backup_files @ [src]))))"

text \<open>\<open>DeploymentCheckpoint.save\<close> writes \<open>checkpoint.json\<close>; what the file says is not
  modelled.\<close>

definition checkpoint_save :: "filesystem \<Rightarrow> path \<Rightarrow> error + filesystem" where
  "checkpoint_save fs bp =
     (case mkdir_parents fs bp of
        Inl e \<Rightarrow> Inl e
      | Inr fs1 \<Rightarrow>
          (case lookup fs1 (bp @ [''checkpoint.json'']) of
             Some Dir \<Rightarrow> Inl OSError
           | _ \<Rightarrow> Inr (fs_write fs1 (bp @ [''checkpoint.json'']) (File []))))"

definition create_checkpoint ::
  "env \<Rightarrow> engine \<Rightarrow> Profile \<Rightarrow> (error + DeploymentCheckpoint) \<times> engine" where
  "create_checkpoint ev eng profile =
     (case game_path profile of
        None \<Rightarrow> (Inl DeploymentError, eng)
      | Some gp \<Rightarrow>
          (let bp = now_backup_path ev;
               state = get_deployment_state (db_rows eng) (profile_name profile)
           in case backup_loop (files eng) gp bp (map fst state) [] of
                (Inl e, fs1) \<Rightarrow> (Inl e, eng\<lparr>files := fs1\<rparr>)
              | (Inr backup_files, fs1) \<Rightarrow>
                  (case checkpoint_save fs1 bp of
                     Inl e \<Rightarrow> (Inl e, eng\<lparr>files := fs1\<rparr>)
                   | Inr fs2 \<Rightarrow>
                       (Inr \<lparr>cp_profile_name = profile_name profile, cp_game_path = gp,
                             backup_path = bp, deployment_state = state,
                             files_modified = backup_files\<rparr>,
                        eng\<lparr>files := fs2\<rparr>))))"

text \<open>
  A call \<open>self.create_checkpoint(*args)\<close>. The method has one required positional
  parameter, \<open>profile\<close>; Python raises \<open>TypeError\<close> for any other number of arguments,
  before the body runs.
\<close>

definition create_checkpoint_call ::
  "env \<Rightarrow> engine \<Rightarrow> Profile list \<Rightarrow> (error + DeploymentCheckpoint) \<times> engine" where
  "create_checkpoint_call ev eng args =
     (case args of
        [profile] \<Rightarrow> create_checkpoint ev eng profile
      | _ \<Rightarrow> (Inl TypeError, eng))"

subsection \<open>\<open>rollback\<close>\<close>

fun restore_loop ::
  "filesystem \<Rightarrow> path \<Rightarrow> path \<Rightarrow> path list \<Rightarrow> (error + unit) \<times> filesystem" where
  "restore_loop fs bp gp [] = (Inr (), fs)"
| "restore_loop fs bp gp (backup_file # rest) =
     (if is_file fs backup_file \<and> last backup_file \<noteq> ''checkpoint.json''
      then (let dst_file = gp @ drop (length bp) backup_file
            in case mkdir_parents fs (butlast dst_file) of
                 Inl e \<Rightarrow> (Inl e, fs)
               | Inr fs1 \<Rightarrow>
                   (case copy2 fs1 backup_file dst_file of
                      Inl e \<Rightarrow> (Inl e, fs1)
                    | Inr fs2 \<Rightarrow> restore_loop fs2 bp gp rest))
      else restore_loop fs bp gp rest)"

definition rollback ::
  "engine \<Rightarrow> DeploymentCheckpoint option \<Rightarrow> (error + bool) \<times> engine" where
  "rollback eng checkpoint_arg =
     (case (case checkpoint_arg of Some c \<Rightarrow> Some c | None \<Rightarrow> current_checkpoint eng) of
        None \<Rightarrow> (Inl RollbackError, eng)
      | Some checkpoint \<Rightarrow>
          (let current_state = get_deployment_state (db_rows eng) (cp_profile_name checkpoint);
               fs1 = fold (\<lambda>p fs. remove_file fs p) (map fst current_state) (files eng);
               bp = backup_path checkpoint
           in case (if path_exists fs1 bp
                    then restore_loop fs1 bp (cp_game_path checkpoint) (rglob fs1 bp)
                    else (Inr (), fs1)) of
                (Inl e, fs2) \<Rightarrow> (Inl RollbackError, eng\<lparr>files := fs2\<rparr>)
              | (Inr u, fs2) \<Rightarrow>
                  (Inr True,
                   eng\<lparr>files := fs2,
                       db_rows :=
                         fold (\<lambda>(p, fh) rows.
                                 save_deployment_state rows p fh [] (cp_profile_name checkpoint))
                           (deployment_state checkpoint)
                           (clear_deployment_state (db_rows eng) (cp_profile_name checkpoint))\<rparr>)))"

subsection \<open>\<open>deploy_profile\<close>\<close>

definition should_copy_file ::
  "(string \<Rightarrow> string) \<Rightarrow> filesystem \<Rightarrow> path \<Rightarrow> path \<Rightarrow> error + bool" where
  "should_copy_file h fs src dst =
     (if \<not> path_exists fs dst then Inr True
      else (case calculate_file_hash h fs src of
              Inl e \<Rightarrow> Inl e
            | Inr src_hash \<Rightarrow>
                (case calculate_file_hash h fs dst of
                   Inl e \<Rightarrow> Inl e
                 | Inr dst_hash \<Rightarrow> Inr (src_hash \<noteq> dst_hash))))"

text \<open>The loop over \<open>changes['to_remove']\<close>.\<close>

fun remove_loop ::
  "progress_callback \<Rightarrow> int \<Rightarrow> path list \<Rightarrow> int \<Rightarrow> filesystem \<Rightarrow> (error + int) \<times> filesystem" where
  "remove_loop cb total_operations [] current_operation fs = (Inr current_operation, fs)"
| "remove_loop cb total_operations (p # rest) current_operation fs =
     (case call_progress cb current_operation total_operations
             (''Removing: '' @ (if p = [] then [] else last p)) of
        Some e \<Rightarrow> (Inl e, fs)
      | None \<Rightarrow>
          remove_loop cb total_operations rest (current_operation + 1) (remove_file fs p))"

text \<open>The loop over one mod's files, and the loop over the enabled mods.\<close>

fun copy_files ::
  "env \<Rightarrow> progress_callback \<Rightarrow> int \<Rightarrow> string \<Rightarrow> path \<Rightarrow> Mod \<Rightarrow> path \<Rightarrow> path list \<Rightarrow> int \<Rightarrow> engine
     \<Rightarrow> (error + int) \<times> engine" where
  "copy_files ev cb total_operations pn plugins_dir m ip [] current_operation eng =
     (Inr current_operation, eng)"
| "copy_files ev cb total_operations pn plugins_dir m ip (src_file # rest) current_operation eng =
     (let dst_file = dst_of plugins_dir m ip src_file
      in case should_copy_file (hash_fn ev) (files eng) src_file dst_file of
           Inl e \<Rightarrow> (Inl e, eng)
         | Inr False \<Rightarrow>
             copy_files ev cb total_operations pn plugins_dir m ip rest current_operation eng
         | Inr True \<Rightarrow>
             (case call_progress cb current_operation total_operations
                     (''Copying: '' @ name m @ '' - '' @ last src_file) of
                Some e \<Rightarrow> (Inl e, eng)
              | None \<Rightarrow>
                  (case mkdir_parents (files eng) (butlast dst_file) of
                     Inl e \<Rightarrow> (Inl e, eng)
                   | Inr fs1 \<Rightarrow>
                       (case copy2 fs1 src_file dst_file of
                          Inl e \<Rightarrow> (Inl e, eng\<lparr>files := fs1\<rparr>)
                        | Inr fs2 \<Rightarrow>
                            (case calculate_file_hash (hash_fn ev) fs2 src_file of
                               Inl e \<Rightarrow> (Inl e, eng\<lparr>files := fs2\<rparr>)
                             | Inr fh \<Rightarrow>
                                 copy_files ev cb total_operations pn plugins_dir m ip rest
                                   (current_operation + 1)
                                   (eng\<lparr>files := fs2,
                                        db_rows := save_deployment_state (db_rows eng)
                                                     dst_file fh (id_mod m) pn\<rparr>))))))"

fun deploy_mods ::
  "env \<Rightarrow> progress_callback \<Rightarrow> int \<Rightarrow> string \<Rightarrow> path \<Rightarrow> Mod list \<Rightarrow> int \<Rightarrow> engine
     \<Rightarrow> (error + int) \<times> engine" where
  "deploy_mods ev cb total_operations pn plugins_dir [] current_operation eng =
     (Inr current_operation, eng)"
| "deploy_mods ev cb total_operations pn plugins_dir (m # ms) current_operation eng =
     (case install_path m of
        None \<Rightarrow> deploy_mods ev cb total_operations pn plugins_dir ms current_operation eng
      | Some ip \<Rightarrow>
          if \<not> path_exists (files eng) ip
          then deploy_mods ev cb total_operations pn plugins_dir ms current_operation eng
          else (case copy_files ev cb total_operations pn plugins_dir m ip
                       (get_mod_files (files eng) m) current_operation eng of
                  (Inl e, eng1) \<Rightarrow> (Inl e, eng1)
                | (Inr cur, eng1) \<Rightarrow>
                    deploy_mods ev cb total_operations pn plugins_dir ms cur eng1))"

text \<open>The \<open>try\<close> block of \<open>deploy_profile\<close>. The profile is returned as well, because
  the block sets \<open>profile.active\<close>.\<close>

definition apply_changes ::
  "env \<Rightarrow> engine \<Rightarrow> Profile \<Rightarrow> path \<Rightarrow> progress_callback \<Rightarrow> (error + bool) \<times> engine \<times> Profile" where
  "apply_changes ev eng profile gp cb =
     (let enabled_mods = filter enabled (profile_mods profile)
      in if enabled_mods = [] then (Inr True, eng, profile)
         else
           (let sorted_mods = sort_key load_order enabled_mods
            in case calculate_changes ev eng profile sorted_mods of
                 (Inl e, eng0) \<Rightarrow> (Inl e, eng0, profile)
               | (Inr ch, eng0) \<Rightarrow>
                   (let total_operations =
                          int (length (to_add ch) + length (to_update ch) + length (to_remove ch))
                    in case remove_loop cb total_operations (to_remove ch) 0 (files eng0) of
                         (Inl e, fs1) \<Rightarrow> (Inl e, eng0\<lparr>files := fs1\<rparr>, profile)
                       | (Inr cur, fs1) \<Rightarrow>
                           (let plugins_dir = join_str gp BEPINEX_PLUGINS_DIR
                            in case mkdir_parents fs1 plugins_dir of
                                 Inl e \<Rightarrow> (Inl e, eng0\<lparr>files := fs1\<rparr>, profile)
                               | Inr fs2 \<Rightarrow>
                                   (case deploy_mods ev cb total_operations (profile_name profile)
                                           plugins_dir sorted_mods cur (eng0\<lparr>files := fs2\<rparr>) of
                                      (Inl e, eng1) \<Rightarrow> (Inl e, eng1, profile)
                                    | (Inr cur', eng1) \<Rightarrow>
                                        (case deploy_configs ev eng1 profile of
                                           (Inl e, eng2) \<Rightarrow> (Inl e, eng2, profile)
                                         | (Inr u, eng2) \<Rightarrow>
                                             (Inr True, eng2, profile\<lparr>active := True\<rparr>)))))))"

text \<open>The method as written, without its decorator.\<close>

definition deploy_profile_body ::
  "env \<Rightarrow> engine \<Rightarrow> Profile \<Rightarrow> progress_callback \<Rightarrow> (error + bool) \<times> engine \<times> Profile" where
  "deploy_profile_body ev eng profile cb =
     (case game_path profile of
        None \<Rightarrow> (Inl DeploymentError, eng, profile)
      | Some gp \<Rightarrow>
          (case validate_game_path (files eng) gp of
             Inl e \<Rightarrow> (Inl e, eng, profile)
           | Inr ok \<Rightarrow>
               (case (if AUTO_BACKUP_BEFORE_DEPLOY
                      then (case create_checkpoint ev eng profile of
                              (Inl e, eng1) \<Rightarrow> (Inl e, eng1)
                            | (Inr c, eng1) \<Rightarrow> (Inr (), eng1\<lparr>current_checkpoint := Some c\<rparr>))
                      else (Inr (), eng)) of
                  (Inl e, eng1) \<Rightarrow> (Inl e, eng1, profile)
                | (Inr u, eng1) \<Rightarrow>
                    (case apply_changes ev eng1 profile gp cb of
                       (Inl e, eng2, profile') \<Rightarrow> (Inl DeploymentFailedError, eng2, profile')
                     | (Inr r, eng2, profile') \<Rightarrow> (Inr r, eng2, profile')))))"

text \<open>
  The decorator \<open>with_rollback\<close> of \<open>core/exceptions.py\<close>, applied to a method of the
  engine, which has both a \<open>create_checkpoint\<close> and a \<open>rollback\<close> attribute. The wrapper
  calls \<open>self.create_checkpoint()\<close> with no argument, outside its \<open>try\<close>.
\<close>

definition with_rollback ::
  "env \<Rightarrow> (engine \<Rightarrow> 'a \<Rightarrow> 'b \<Rightarrow> (error + 'r) \<times> engine \<times> 'a)
     \<Rightarrow> engine \<Rightarrow> 'a \<Rightarrow> 'b \<Rightarrow> (error + 'r) \<times> engine \<times> 'a" where
  "with_rollback ev func self a b =
     (case create_checkpoint_call ev self [] of
        (Inl e, self1) \<Rightarrow> (Inl e, self1, a)
      | (Inr checkpoint, self1) \<Rightarrow>
          (case func self1 a b of
             (Inr r, self2, a') \<Rightarrow> (Inr r, self2, a')
           | (Inl e, self2, a') \<Rightarrow>
               (case rollback self2 (Some checkpoint) of
                  (Inl rollback_error, self3) \<Rightarrow> (Inl RollbackError, self3, a')
                | (Inr ok, self3) \<Rightarrow> (Inl e, self3, a'))))"

text \<open>\<open>DeploymentEngine.deploy_profile\<close>, as callers see it.\<close>

definition deploy_profile ::
  "env \<Rightarrow> engine \<Rightarrow> Profile \<Rightarrow> progress_callback \<Rightarrow> (error + bool) \<times> engine \<times> Profile" where
  "deploy_profile ev = with_rollback ev (deploy_profile_body ev)"

subsection \<open>Concrete inputs\<close>

text \<open>A stand-in digest function, an environment whose configuration step does
  nothing, a mod with one deployable file, and a profile that holds it.\<close>

definition toy_hash :: "string \<Rightarrow> string" where
  "toy_hash c = c"

definition no_configs :: "engine \<Rightarrow> Profile \<Rightarrow> (error + unit) \<times> engine" where
  "no_configs eng profile = (Inr (), eng)"

definition toy_env :: env where
  "toy_env = \<lparr>hash_fn = toy_hash, now_backup_path = [''data'', ''backups'', ''checkpoint_1''],
              deploy_configs = no_configs\<rparr>"

definition mod_m :: Mod where
  "mod_m = \<lparr>id_mod = ''x-M'', name = ''M'', version = ''1.0.0'',
            install_path = Some [''mods'', ''x-M''], dependencies = [], config_files = [],
            enabled = True, load_order = 0\<rparr>"

definition profile_p :: Profile where
  "profile_p = \<lparr>profile_name = ''main'', profile_mods = [mod_m],
                game_path = Some [''game''], active = False\<rparr>"

text \<open>A game directory into which nothing has been deployed yet.\<close>

definition fresh_fs :: filesystem where
  "fresh_fs =
     [([''mods''], Dir), ([''mods'', ''x-M''], Dir), ([''mods'', ''x-M'', ''a.dll''], File ''abc''),
      ([''game''], Dir), ([''game'', ''valheim.exe''], File ''exe'')]"

definition fresh_engine :: engine where
  "fresh_engine = \<lparr>db_rows = [], files = fresh_fs, current_checkpoint = None\<rparr>"

text \<open>The same, with a regular file where the directory \<open>BepInEx\<close> should be, so that
  creating the plugins directory raises.\<close>

definition blocked_fs :: filesystem where
  "blocked_fs =
     [([''mods''], Dir), ([''mods'', ''x-M''], Dir), ([''mods'', ''x-M'', ''a.dll''], File ''abc''),
      ([''game''], Dir), ([''game'', ''valheim.exe''], File ''exe''),
      ([''game'', ''BepInEx''], File ''stray'')]"

definition blocked_engine :: engine where
  "blocked_engine = \<lparr>db_rows = [], files = blocked_fs, current_checkpoint = None\<rparr>"

text \<open>A target directory that holds one deployed file and nothing else, and one that
  holds two deployed files.\<close>

definition dll_a :: path where
  "dll_a = [''game'', ''BepInEx'', ''plugins'', ''x-M'', ''a.dll'']"

definition dll_b :: path where
  "dll_b = [''game'', ''BepInEx'', ''plugins'', ''x-M'', ''b.dll'']"

definition deployed_fs :: filesystem where
  "deployed_fs =
     [([''game''], Dir), ([''game'', ''BepInEx''], Dir), ([''game'', ''BepInEx'', ''plugins''], Dir),
      ([''game'', ''BepInEx'', ''plugins'', ''x-M''], Dir), (dll_a, File ''abc'')]"

definition deployed_fs2 :: filesystem where
  "deployed_fs2 = deployed_fs @ [(dll_b, File ''xyz'')]"

text \<open>An engine whose stored state already matches what the profile's mod would deploy.\<close>

definition synced_engine :: engine where
  "synced_engine =
     \<lparr>db_rows = [\<lparr>file_path = dll_a, file_hash = ''abc'', row_mod_id = ''x-M'',
                  row_profile = ''main''\<rparr>],
      files = fresh_fs @ [([''game'', ''BepInEx''], Dir), ([''game'', ''BepInEx'', ''plugins''], Dir),
                ([''game'', ''BepInEx'', ''plugins'', ''x-M''], Dir), (dll_a, File ''abc'')],
      current_checkpoint = None\<rparr>"


section \<open>Version comparison (\<open>DependencyResolver._compare_versions\<close>)\<close>

text \<open>
  The built-in \<open>int(s)\<close> on a string, base 10: surrounding whitespace is stripped, one
  sign is allowed, then decimal digits follow, with single underscores allowed between
  digits. Anything else raises \<open>ValueError\<close>, which is \<open>None\<close> here. (The interpreter's
  configurable limit on the number of digits is not modelled.)
\<close>

definition is_space :: "char \<Rightarrow> bool" where
  "is_space c = (let n = (of_char c :: nat) in (9 \<le> n \<and> n \<le> 13) \<or> (28 \<le> n \<and> n \<le> 32))"

definition strip :: "string \<Rightarrow> string" where
  "strip s = rev (dropWhile is_space (rev (dropWhile is_space s)))"

definition digit_of :: "char \<Rightarrow> int option" where
  "digit_of c = (let n = (of_char c :: nat) in if 48 \<le> n \<and> n \<le> 57 then Some (int n - 48) else None)"

fun parse_digits :: "int \<Rightarrow> bool \<Rightarrow> string \<Rightarrow> int option" where
  "parse_digits acc prev [] = (if prev then Some acc else None)"
| "parse_digits acc prev (c # cs) =
     (if c = CHR ''_'' then (if prev then parse_digits acc False cs else None)
      else (case digit_of c of
              None \<Rightarrow> None
            | Some d \<Rightarrow> parse_digits (10 * acc + d) True cs))"

definition py_int :: "string \<Rightarrow> int option" where
  "py_int s =
     (case strip s of
        [] \<Rightarrow> None
      | c # cs \<Rightarrow>
          if c = CHR ''-'' then map_option uminus (parse_digits 0 False cs)
          else if c = CHR ''+'' then parse_digits 0 False cs
          else parse_digits 0 False (c # cs))"

text \<open>\<open>tuple(map(int, parts))\<close>: the first component that does not parse raises.\<close>

fun map_int :: "string list \<Rightarrow> int list option" where
  "map_int [] = Some []"
| "map_int (p # ps) =
     (case py_int p of
        None \<Rightarrow> None
      | Some n \<Rightarrow> (case map_int ps of None \<Rightarrow> None | Some ns \<Rightarrow> Some (n # ns)))"

text \<open>The inner function \<open>normalize\<close> (called \<open>normalize_v\<close> here): the bare \<open>except\<close> turns any failure into
  \<open>(0, 0, 0)\<close>.\<close>

definition normalize_v :: "string \<Rightarrow> int list" where
  "normalize_v v = (case map_int (split_on CHR ''.'' v) of None \<Rightarrow> [0, 0, 0] | Some t \<Rightarrow> t)"

text \<open>Python's \<open><\<close> on tuples of integers.\<close>

fun tuple_less :: "int list \<Rightarrow> int list \<Rightarrow> bool" where
  "tuple_less [] [] = False"
| "tuple_less [] (y # ys) = True"
| "tuple_less (x # xs) [] = False"
| "tuple_less (x # xs) (y # ys) = (if x = y then tuple_less xs ys else x < y)"

definition compare_versions :: "string \<Rightarrow> string \<Rightarrow> int" where
  "compare_versions v1 v2 =
     (let v1_tuple = normalize_v v1; v2_tuple = normalize_v v2
      in if tuple_less v1_tuple v2_tuple then - 1
         else if tuple_less v2_tuple v1_tuple then 1
         else 0)"

text \<open>
  The comparison as the specification words it: every component is converted on its own,
  and a component that is not a number counts as 0.
\<close>

definition normalize_spec :: "string \<Rightarrow> int list" where
  "normalize_spec v =
     map (\<lambda>p. case py_int p of None \<Rightarrow> 0 | Some n \<Rightarrow> n) (split_on CHR ''.'' v)"

definition compare_versions_spec :: "string \<Rightarrow> string \<Rightarrow> int" where
  "compare_versions_spec v1 v2 =
     (if tuple_less (normalize_spec v1) (normalize_spec v2) then - 1
      else if tuple_less (normalize_spec v2) (normalize_spec v1) then 1
      else 0)"


section \<open>Properties of the dependency resolver\<close>

subsection \<open>The graph that \<open>_build_dependency_graph\<close> makes\<close>

lemma graph_get_edges:
  "distinct (map fst g) \<Longrightarrow> set (graph_get g k) = edges g `` {k}"
  by (auto simp: graph_get_def edges_def split: option.splits dest: map_of_SomeD
        simp: map_of_eq_None_iff image_iff)

lemma graph_add_keys: "map fst (graph_add g k d) = map fst g"
  by (induction g) (auto simp: graph_add_def)

lemma edges_Cons: "edges ((k, s) # g) = (\<lambda>d. (k, d)) ` set s \<union> edges g"
  by (auto simp: edges_def)

lemma edges_append: "edges (g @ h) = edges g \<union> edges h"
  by (auto simp: edges_def)

lemma edges_Nil: "edges [] = {}"
  by (simp add: edges_def)

lemma set_set_add: "set (set_add x s) = insert x (set s)"
  by (auto simp: set_add_def)

lemma distinct_set_add: "distinct s \<Longrightarrow> distinct (set_add x s)"
  by (auto simp: set_add_def)

lemma graph_add_edges:
  "k \<in> set (map fst g) \<Longrightarrow> edges (graph_add g k d) = insert (k, d) (edges g)"
proof (induction g)
  case Nil
  then show ?case by simp
next
  case (Cons a g)
  obtain k' s where a: "a = (k', s)" by (cases a)
  have unf: "graph_add ((k', s) # g) k d
      = (if k' = k then (k', set_add d s) else (k', s)) # graph_add g k d"
    by (simp add: graph_add_def)
  show ?case
  proof (cases "k \<in> set (map fst g)")
    case True
    with Cons.IH have "edges (graph_add g k d) = insert (k, d) (edges g)" by simp
    then show ?thesis unfolding a unf by (auto simp: edges_Cons set_set_add)
  next
    case False
    then have "graph_add g k d = g"
      by (induction g) (auto simp: graph_add_def)
    moreover from False Cons.prems a have "k' = k" by auto
    ultimately show ?thesis unfolding a unf by (auto simp: edges_Cons set_set_add)
  qed
qed

lemma graph_add_distinct_adj:
  "(\<forall>(k, s) \<in> set g. distinct s) \<Longrightarrow> (\<forall>(k, s) \<in> set (graph_add g k d). distinct s)"
  by (auto simp: graph_add_def distinct_set_add split: if_splits)

lemma add_dependencies_ok:
  "(\<forall>d \<in> set deps. mod_id d \<in> ids) \<Longrightarrow> id_mod m \<in> set (map fst g) \<Longrightarrow>
   (\<forall>(k, s) \<in> set g. distinct s) \<Longrightarrow>
   \<exists>g'. add_dependencies ids m deps g = Inr g' \<and> map fst g' = map fst g
      \<and> edges g' = edges g \<union> (\<lambda>d. (id_mod m, mod_id d)) ` set deps
      \<and> (\<forall>(k, s) \<in> set g'. distinct s)"
proof (induction deps arbitrary: g)
  case Nil
  then show ?case by simp
next
  case (Cons dep deps)
  let ?g1 = "graph_add g (id_mod m) (mod_id dep)"
  have k1: "map fst ?g1 = map fst g" by (rule graph_add_keys)
  have e1: "edges ?g1 = insert (id_mod m, mod_id dep) (edges g)"
    using Cons.prems(2) by (rule graph_add_edges)
  have d1: "\<forall>(k, s) \<in> set ?g1. distinct s"
    using Cons.prems(3) by (rule graph_add_distinct_adj)
  from Cons.prems(1) have "\<forall>d \<in> set deps. mod_id d \<in> ids" by simp
  moreover have "id_mod m \<in> set (map fst ?g1)" using Cons.prems(2) k1 by simp
  ultimately obtain g' where g': "add_dependencies ids m deps ?g1 = Inr g'"
      "map fst g' = map fst ?g1"
      "edges g' = edges ?g1 \<union> (\<lambda>d. (id_mod m, mod_id d)) ` set deps"
      "\<forall>(k, s) \<in> set g'. distinct s"
    using Cons.IH [of ?g1] d1 by blast
  from Cons.prems(1) have "mod_id dep \<in> ids" by simp
  then have "add_dependencies ids m (dep # deps) g = Inr g'" using g'(1) by simp
  moreover have "map fst g' = map fst g" using g'(2) k1 by simp
  moreover have "edges g' = edges g \<union> (\<lambda>d. (id_mod m, mod_id d)) ` set (dep # deps)"
    using g'(3) e1 by auto
  ultimately show ?case using g'(4) by blast
qed

lemma build_loop_ok:
  "(\<forall>m \<in> set ms. \<forall>d \<in> set (dependencies m). mod_id d \<in> ids) \<Longrightarrow>
   distinct (map fst g) \<Longrightarrow> (\<forall>(k, s) \<in> set g. distinct s) \<Longrightarrow>
   \<exists>g'. build_loop ids ms g = Inr g' \<and> distinct (map fst g')
      \<and> set (map fst g') = set (map fst g) \<union> id_mod ` set ms
      \<and> edges g' = edges g \<union> depends_on ms
      \<and> (\<forall>(k, s) \<in> set g'. distinct s)"
proof (induction ms arbitrary: g)
  case Nil
  then show ?case by (simp add: depends_on_def)
next
  case (Cons m ms)
  let ?g1 = "if id_mod m \<in> set (graph_keys g) then g else g @ [(id_mod m, [])]"
  have k1: "distinct (map fst ?g1)" "set (map fst ?g1) = insert (id_mod m) (set (map fst g))"
    using Cons.prems(2) by (auto simp: graph_keys_def)
  have e1: "edges ?g1 = edges g" by (auto simp: edges_append edges_Cons edges_Nil)
  have d1: "\<forall>(k, s) \<in> set ?g1. distinct s" using Cons.prems(3) by auto
  have "\<forall>d \<in> set (dependencies m). mod_id d \<in> ids" using Cons.prems(1) by simp
  moreover have "id_mod m \<in> set (map fst ?g1)" using k1(2) by blast
  ultimately obtain g2 where g2: "add_dependencies ids m (dependencies m) ?g1 = Inr g2"
      "map fst g2 = map fst ?g1"
      "edges g2 = edges ?g1 \<union> (\<lambda>d. (id_mod m, mod_id d)) ` set (dependencies m)"
      "\<forall>(k, s) \<in> set g2. distinct s"
    using add_dependencies_ok [of "dependencies m" ids m ?g1] d1 by blast
  have "\<forall>m \<in> set ms. \<forall>d \<in> set (dependencies m). mod_id d \<in> ids" using Cons.prems(1) by simp
  moreover have "distinct (map fst g2)" using g2(2) k1(1) by simp
  ultimately obtain g' where g': "build_loop ids ms g2 = Inr g'" "distinct (map fst g')"
      "set (map fst g') = set (map fst g2) \<union> id_mod ` set ms"
      "edges g' = edges g2 \<union> depends_on ms"
      "\<forall>(k, s) \<in> set g'. distinct s"
    using Cons.IH [of g2] g2(4) by blast
  have "build_loop ids (m # ms) g = Inr g'" using g2(1) g'(1) by (simp add: Let_def)
  moreover have "set (map fst g') = set (map fst g) \<union> id_mod ` set (m # ms)"
    using g'(3) g2(2) k1(2) by auto
  moreover have "depends_on (m # ms)
      = (\<lambda>d. (id_mod m, mod_id d)) ` set (dependencies m) \<union> depends_on ms"
    by (auto simp: depends_on_def)
  then have "edges g' = edges g \<union> depends_on (m # ms)" using g'(4) g2(3) e1 by auto
  ultimately show ?case using g'(2) g'(5) by blast
qed

lemma build_dependency_graph_ok:
  assumes "deps_present mods"
  shows "\<exists>g. build_dependency_graph mods = Inr g \<and> wf_graph g
     \<and> set (map fst g) = id_mod ` set mods \<and> edges g = depends_on mods"
proof -
  have "\<forall>m \<in> set mods. \<forall>d \<in> set (dependencies m). mod_id d \<in> set (map id_mod mods)"
    using assms by (simp add: deps_present_def)
  then obtain g where g: "build_loop (set (map id_mod mods)) mods [] = Inr g"
      "distinct (map fst g)" "set (map fst g) = id_mod ` set mods"
      "edges g = depends_on mods" "\<forall>(k, s) \<in> set g. distinct s"
    using build_loop_ok [of mods "set (map id_mod mods)" "[]"] by (auto simp: edges_Nil)
  have "\<forall>(k, s) \<in> set g. set s \<subseteq> set (map fst g)"
  proof clarify
    fix k s x assume "(k, s) \<in> set g" "x \<in> set s"
    then have "(k, x) \<in> depends_on mods" using g(4) by (auto simp: edges_def)
    then have "x \<in> id_mod ` set mods" using assms by (auto simp: depends_on_def deps_present_def)
    then show "x \<in> set (map fst g)" using g(3) by simp
  qed
  then have "wf_graph g" using g(2) g(5) by (auto simp: wf_graph_def)
  then show ?thesis using g by (auto simp: build_dependency_graph_def)
qed


subsection \<open>The cycle check\<close>

lemma filter_length_mono:
  "(\<And>x. Q x \<Longrightarrow> P x) \<Longrightarrow> length (filter Q xs) \<le> length (filter P xs)"
  by (induction xs) auto

lemma filter_length_strict:
  "(\<And>x. Q x \<Longrightarrow> P x) \<Longrightarrow> x \<in> set xs \<Longrightarrow> P x \<Longrightarrow> \<not> Q x \<Longrightarrow>
   length (filter Q xs) < length (filter P xs)"
proof (induction xs)
  case Nil
  then show ?case by simp
next
  case (Cons a xs)
  have le: "length (filter Q xs) \<le> length (filter P xs)"
    using Cons.prems(1) by (rule filter_length_mono)
  show ?case
  proof (cases "a = x")
    case True
    then show ?thesis using Cons.prems le by simp
  next
    case False
    then have "length (filter Q xs) < length (filter P xs)"
      using Cons.IH Cons.prems by simp
    then show ?thesis using Cons.prems(1) by auto
  qed
qed

lemma whites_gray:
  "c node = Some WHITE \<Longrightarrow> node \<in> set (map fst g) \<Longrightarrow> whites g (c(node \<mapsto> GRAY)) < whites g c"
  unfolding whites_def
  by (rule filter_length_strict [where x = node]) (auto split: if_splits)

lemma whites_black: "whites g (c(node \<mapsto> BLACK)) \<le> whites g c"
  unfolding whites_def
  by (rule filter_length_mono) (auto split: if_splits)

lemma black_closed_reach:
  "(u, v) \<in> E\<^sup>* \<Longrightarrow> black_closed E c \<Longrightarrow> c u = Some BLACK \<Longrightarrow> c v = Some BLACK"
  by (induction rule: rtrancl_induct) (auto simp: black_closed_def)

lemma dfs_post_refl: "dfs_inv g c path \<Longrightarrow> dfs_post g c c"
  by (simp add: dfs_inv_def dfs_post_def)

lemma dfs_post_trans: "dfs_post g c c1 \<Longrightarrow> dfs_post g c1 c2 \<Longrightarrow> dfs_post g c c2"
  by (auto simp: dfs_post_def)

lemma dfs_post_inv: "dfs_inv g c path \<Longrightarrow> dfs_post g c c' \<Longrightarrow> dfs_inv g c' path"
  by (auto simp: dfs_post_def dfs_inv_def)

lemma successively_drop:
  "successively P xs \<Longrightarrow> successively P (drop k xs)"
proof -
  assume a: "successively P xs"
  have "successively P (take k xs @ drop k xs)" using a by simp
  then show ?thesis unfolding successively_append_iff by blast
qed

lemma cycle_error_gray:
  assumes "node \<in> set path" "successively (\<lambda>a b. (a, b) \<in> E) (path @ [node])"
  shows "cycle_error E (CircularDependencyError (dropWhile (\<lambda>x. x \<noteq> node) path @ [node]))"
proof -
  let ?P = "\<lambda>x. x \<noteq> node"
  let ?ch = "dropWhile ?P path @ [node]"
  have ne: "dropWhile ?P path \<noteq> []" using assms(1) by (simp add: dropWhile_eq_Nil_conv)
  then have len: "2 \<le> length ?ch" by (cases "dropWhile ?P path") auto
  have hd: "hd ?ch = node" using ne hd_dropWhile [of ?P path] by simp
  have "?ch = dropWhile ?P (path @ [node])" using assms(1) by (simp add: dropWhile_append1)
  also have "\<dots> = drop (length (takeWhile ?P (path @ [node]))) (path @ [node])"
    by (rule dropWhile_eq_drop)
  finally have "successively (\<lambda>a b. (a, b) \<in> E) ?ch"
    using assms(2) by (simp only: successively_drop)
  then show ?thesis using len hd by (auto simp: cycle_error_def valid_cycle_def)
qed

lemma dfs_blacken:
  assumes post: "dfs_post g (c(node \<mapsto> GRAY)) c'"
    and nbs: "\<forall>v. (node, v) \<in> edges g \<longrightarrow> c' v = Some BLACK"
    and white: "c node = Some WHITE" and key: "node \<in> set (map fst g)"
  shows "dfs_post g c (c'(node \<mapsto> BLACK))"
proof -
  let ?E = "edges g"
  from post have gray: "c' node = Some GRAY" by (simp add: dfs_post_def)
  have bc: "black_closed ?E c'" and ba: "black_acyclic ?E c'" using post by (auto simp: dfs_post_def)
  have "dom (c'(node \<mapsto> BLACK)) = set (map fst g)" using post key by (auto simp: dfs_post_def)
  moreover have "whites g (c'(node \<mapsto> BLACK)) \<le> whites g c"
  proof -
    have "whites g (c'(node \<mapsto> BLACK)) \<le> whites g c'" by (rule whites_black)
    also have "\<dots> \<le> whites g (c(node \<mapsto> GRAY))" using post by (simp add: dfs_post_def)
    also have "\<dots> \<le> whites g c" using whites_gray [of c node g] white key by simp
    finally show ?thesis .
  qed
  moreover have "black_closed ?E (c'(node \<mapsto> BLACK))"
    using bc nbs by (auto simp: black_closed_def)
  moreover have "black_acyclic ?E (c'(node \<mapsto> BLACK))"
  proof -
    have "(node, node) \<notin> ?E\<^sup>+"
    proof
      assume "(node, node) \<in> ?E\<^sup>+"
      then obtain v where v: "(node, v) \<in> ?E" "(v, node) \<in> ?E\<^sup>*"
        by (meson tranclD)
      then have "c' v = Some BLACK" using nbs by blast
      then have "c' node = Some BLACK" using black_closed_reach [OF v(2) bc] by blast
      then show False using gray by simp
    qed
    then show ?thesis using ba by (auto simp: black_acyclic_def)
  qed
  moreover have "\<forall>x. (c'(node \<mapsto> BLACK)) x = Some GRAY \<longleftrightarrow> c x = Some GRAY"
    using post white by (auto simp: dfs_post_def split: if_splits)
  moreover have "\<forall>x. c x = Some BLACK \<longrightarrow> (c'(node \<mapsto> BLACK)) x = Some BLACK"
    using post white by (auto simp: dfs_post_def split: if_splits)
  ultimately show ?thesis unfolding dfs_post_def by blast
qed

lemma dfs_inv_gray:
  assumes "dfs_inv g c path" "c node = Some WHITE" "node \<in> set (map fst g)"
  shows "dfs_inv g (c(node \<mapsto> GRAY)) (path @ [node])"
  using assms by (auto simp: dfs_inv_def black_closed_def black_acyclic_def split: if_splits)



lemma wf_graph_get:
  "wf_graph g \<Longrightarrow> distinct (graph_get g k) \<and> set (graph_get g k) \<subseteq> set (map fst g)"
  by (auto simp: wf_graph_def graph_get_def split: option.splits dest!: map_of_SomeD)

lemma wf_graph_neighbors:
  assumes "set_order it" "wf_graph g"
  shows "set (it (graph_get g k)) = edges g `` {k}" "distinct (it (graph_get g k))"
    "set (it (graph_get g k)) \<subseteq> set (map fst g)"
proof -
  have d: "distinct (graph_get g k)" using wf_graph_get [OF assms(2)] by blast
  then have s: "set (it (graph_get g k)) = set (graph_get g k)"
    and "distinct (it (graph_get g k))" using assms(1) by (auto simp: set_order_def)
  then show "distinct (it (graph_get g k))" by blast
  show "set (it (graph_get g k)) = edges g `` {k}"
    using s graph_get_edges [of g k] assms(2) by (simp add: wf_graph_def)
  show "set (it (graph_get g k)) \<subseteq> set (map fst g)"
    using s wf_graph_get [OF assms(2), of k] by simp
qed

lemma dfs_correct:
  "set_order it \<Longrightarrow> wf_graph g \<Longrightarrow>
   dfs_inv g c path \<Longrightarrow> node \<in> set (map fst g) \<Longrightarrow> whites g c < n \<Longrightarrow>
     successively (\<lambda>a b. (a, b) \<in> edges g) (path @ [node]) \<Longrightarrow>
     \<exists>r. dfs it g n c node path = Some r \<and>
       (case r of Inl e \<Rightarrow> cycle_error (edges g) e
                | Inr c' \<Rightarrow> dfs_post g c c' \<and> c' node = Some BLACK)"
  and "set_order it \<Longrightarrow> wf_graph g \<Longrightarrow>
   dfs_inv g c path \<Longrightarrow> set nbs \<subseteq> set (map fst g) \<Longrightarrow> whites g c < n \<Longrightarrow>
     path \<noteq> [] \<Longrightarrow> successively (\<lambda>a b. (a, b) \<in> edges g) path \<Longrightarrow>
     (\<forall>nb \<in> set nbs. (last path, nb) \<in> edges g) \<Longrightarrow>
     \<exists>r. dfs_neighbors it g n c nbs path = Some r \<and>
       (case r of Inl e \<Rightarrow> cycle_error (edges g) e
                | Inr c' \<Rightarrow> dfs_post g c c' \<and> (\<forall>nb \<in> set nbs. c' nb = Some BLACK))"
proof (induction it g n c node path and it g n c nbs path rule: dfs_dfs_neighbors.induct)
  case (1 it g colors node path)
  then show ?case by simp
next
  case (2 it g n colors node path)
  note it = "2.prems"(1) and wf = "2.prems"(2) and inv = "2.prems"(3) and key = "2.prems"(4)
    and fuel = "2.prems"(5) and chain = "2.prems"(6)
  from inv key obtain col where col: "colors node = Some col"
    by (auto simp: dfs_inv_def)
  show ?case
  proof (cases col)
    case WHITE
    let ?c1 = "colors(node \<mapsto> GRAY)" and ?nbs = "it (graph_get g node)" and ?p = "path @ [node]"
    have white: "colors node = Some WHITE" using col WHITE by simp
    have inv1: "dfs_inv g ?c1 ?p" using inv white key by (rule dfs_inv_gray)
    have nbs: "set ?nbs = edges g `` {node}" "set ?nbs \<subseteq> set (map fst g)"
      using wf_graph_neighbors [OF it wf] by blast+
    have w1: "whites g ?c1 < n" using whites_gray [of colors node g] white key fuel by simp
    have e1: "\<forall>nb \<in> set ?nbs. (last ?p, nb) \<in> edges g" using nbs(1) by simp
    have ne1: "?p \<noteq> []" by simp
    have "\<exists>r. dfs_neighbors it g n ?c1 ?nbs ?p = Some r \<and>
       (case r of Inl e \<Rightarrow> cycle_error (edges g) e
                | Inr c' \<Rightarrow> dfs_post g ?c1 c' \<and> (\<forall>nb \<in> set ?nbs. c' nb = Some BLACK))"
      using "2.IH" [OF col WHITE it wf inv1 nbs(2) w1 ne1 chain e1] .
    then obtain r where r: "dfs_neighbors it g n ?c1 ?nbs ?p = Some r"
      "case r of Inl e \<Rightarrow> cycle_error (edges g) e
                | Inr c' \<Rightarrow> dfs_post g ?c1 c' \<and> (\<forall>nb \<in> set ?nbs. c' nb = Some BLACK)"
      by blast
    show ?thesis
    proof (cases r)
      case (Inl e)
      then show ?thesis using r white by simp
    next
      case (Inr c')
      then have post: "dfs_post g ?c1 c'" and blk: "\<forall>v. (node, v) \<in> edges g \<longrightarrow> c' v = Some BLACK"
        using r(2) nbs(1) by auto
      have "dfs_post g colors (c'(node \<mapsto> BLACK))"
        using post blk white key by (rule dfs_blacken)
      then show ?thesis using r(1) Inr white by simp
    qed
  next
    case GRAY
    then have "node \<in> set path" using inv col by (simp add: dfs_inv_def)
    then show ?thesis using col GRAY cycle_error_gray [OF _ chain] by simp
  next
    case BLACK
    then show ?thesis using col dfs_post_refl [OF inv] by simp
  qed
next
  case (3 it g n colors path)
  then show ?case using dfs_post_refl by simp
next
  case (4 it g n colors neighbor rest path)
  note it = "4.prems"(1) and wf = "4.prems"(2) and inv = "4.prems"(3) and sub = "4.prems"(4)
    and fuel = "4.prems"(5) and ne = "4.prems"(6) and chain = "4.prems"(7) and es = "4.prems"(8)
  have key: "neighbor \<in> set (map fst g)" using sub by simp
  have chain1: "successively (\<lambda>a b. (a, b) \<in> edges g) (path @ [neighbor])"
    using chain ne es by (simp add: successively_append_iff)
  obtain r1 where r1: "dfs it g n colors neighbor path = Some r1"
      "case r1 of Inl e \<Rightarrow> cycle_error (edges g) e
                | Inr c' \<Rightarrow> dfs_post g colors c' \<and> c' neighbor = Some BLACK"
    using "4.IH"(1) [OF it wf inv key fuel chain1] by blast
  show ?case
  proof (cases r1)
    case (Inl e)
    then show ?thesis using r1 by simp
  next
    case (Inr c1)
    then have post1: "dfs_post g colors c1" and b1: "c1 neighbor = Some BLACK" using r1(2) by auto
    have inv1: "dfs_inv g c1 path" using inv post1 by (rule dfs_post_inv)
    have sub1: "set rest \<subseteq> set (map fst g)" using sub by simp
    have w1: "whites g c1 < n" using post1 fuel by (simp add: dfs_post_def)
    have es1: "\<forall>nb \<in> set rest. (last path, nb) \<in> edges g" using es by simp
    obtain r2 where r2: "dfs_neighbors it g n c1 rest path = Some r2"
      "case r2 of Inl e \<Rightarrow> cycle_error (edges g) e
                | Inr c' \<Rightarrow> dfs_post g c1 c' \<and> (\<forall>nb \<in> set rest. c' nb = Some BLACK)"
      using "4.IH"(2) [OF _ _ it wf inv1 sub1 w1 ne chain es1] r1(1) Inr by blast
    show ?thesis
    proof (cases r2)
      case (Inl e)
      then show ?thesis using r1(1) \<open>r1 = Inr c1\<close> r2 by simp
    next
      case (Inr c2)
      then have post2: "dfs_post g c1 c2" and b2: "\<forall>nb \<in> set rest. c2 nb = Some BLACK"
        using r2(2) by auto
      have "dfs_post g colors c2" using post1 post2 by (rule dfs_post_trans)
      moreover have "c2 neighbor = Some BLACK" using b1 post2 by (simp add: dfs_post_def)
      ultimately show ?thesis using r1(1) \<open>r1 = Inr c1\<close> r2(1) Inr b2 by simp
    qed
  qed
qed


lemma check_loop_correct:
  "set_order it \<Longrightarrow> wf_graph g \<Longrightarrow> dfs_inv g c [] \<Longrightarrow> set nodes \<subseteq> set (map fst g) \<Longrightarrow>
   whites g c < n \<Longrightarrow>
   \<exists>r. check_loop it g n c nodes = Some r \<and>
     (case r of Inl e \<Rightarrow> cycle_error (edges g) e
              | Inr c' \<Rightarrow> dfs_post g c c' \<and> (\<forall>x \<in> set nodes. c' x = Some BLACK))"
proof (induction nodes arbitrary: c)
  case Nil
  then show ?case using dfs_post_refl by simp
next
  case (Cons node nodes)
  note it = Cons.prems(1) and wf = Cons.prems(2) and inv = Cons.prems(3)
    and sub = Cons.prems(4) and fuel = Cons.prems(5)
  have key: "node \<in> set (map fst g)" and sub1: "set nodes \<subseteq> set (map fst g)"
    using sub by simp_all
  from inv key obtain col where col: "c node = Some col" by (auto simp: dfs_inv_def)
  have nogray: "col \<noteq> GRAY" using inv col by (auto simp: dfs_inv_def)
  show ?case
  proof (cases "col = WHITE")
    case True
    obtain r1 where r1: "dfs it g n c node [] = Some r1"
      "case r1 of Inl e \<Rightarrow> cycle_error (edges g) e
                | Inr c' \<Rightarrow> dfs_post g c c' \<and> c' node = Some BLACK"
      using dfs_correct(1) [OF it wf inv key fuel] by auto
    show ?thesis
    proof (cases r1)
      case (Inl e)
      then show ?thesis using r1 col True by simp
    next
      case (Inr c1)
      then have post1: "dfs_post g c c1" and b1: "c1 node = Some BLACK" using r1(2) by auto
      have inv1: "dfs_inv g c1 []" using inv post1 by (rule dfs_post_inv)
      have w1: "whites g c1 < n" using post1 fuel by (simp add: dfs_post_def)
      obtain r2 where r2: "check_loop it g n c1 nodes = Some r2"
        "case r2 of Inl e \<Rightarrow> cycle_error (edges g) e
                  | Inr c' \<Rightarrow> dfs_post g c1 c' \<and> (\<forall>x \<in> set nodes. c' x = Some BLACK)"
        using Cons.IH [OF it wf inv1 sub1 w1] by blast
      show ?thesis
      proof (cases r2)
        case (Inl e)
        then show ?thesis using r1(1) \<open>r1 = Inr c1\<close> r2 col True by simp
      next
        case (Inr c2)
        then have post2: "dfs_post g c1 c2" and b2: "\<forall>x \<in> set nodes. c2 x = Some BLACK"
          using r2(2) by auto
        have "dfs_post g c c2" using post1 post2 by (rule dfs_post_trans)
        moreover have "c2 node = Some BLACK" using b1 post2 by (simp add: dfs_post_def)
        ultimately show ?thesis using r1(1) \<open>r1 = Inr c1\<close> r2(1) Inr b2 col True by simp
      qed
    qed
  next
    case False
    then have blk: "col = BLACK" using nogray by (cases col) auto
    obtain r2 where r2: "check_loop it g n c nodes = Some r2"
      "case r2 of Inl e \<Rightarrow> cycle_error (edges g) e
                | Inr c' \<Rightarrow> dfs_post g c c' \<and> (\<forall>x \<in> set nodes. c' x = Some BLACK)"
      using Cons.IH [OF it wf inv sub1 fuel] by blast
    show ?thesis
    proof (cases r2)
      case (Inl e)
      then show ?thesis using r2 col blk by simp
    next
      case (Inr c2)
      then have "c2 node = Some BLACK" using r2(2) col blk by (simp add: dfs_post_def)
      then show ?thesis using r2 Inr col blk by simp
    qed
  qed
qed

lemma chain_trancl:
  "successively (\<lambda>a b. (a, b) \<in> E) (x # xs) \<Longrightarrow> xs \<noteq> [] \<Longrightarrow> (x, last xs) \<in> E\<^sup>+"
proof (induction xs arbitrary: x)
  case Nil
  then show ?case by simp
next
  case (Cons y ys)
  then have xy: "(x, y) \<in> E" by simp
  show ?case
  proof (cases "ys = []")
    case True
    then show ?thesis using xy by auto
  next
    case False
    then have "(y, last ys) \<in> E\<^sup>+" using Cons by simp
    then show ?thesis using xy False by (simp add: trancl_into_trancl2)
  qed
qed

lemma valid_cycle_not_acyclic: "valid_cycle E chain \<Longrightarrow> \<not> acyclic E"
proof -
  assume v: "valid_cycle E chain"
  then have "Suc (Suc 0) \<le> length chain" by (simp add: valid_cycle_def)
  then obtain x y ys where "chain = x # y # ys" by (auto simp: Suc_le_length_iff)
  then obtain xs where ch: "chain = x # xs" "xs \<noteq> []" by blast
  have s: "successively (\<lambda>a b. (a, b) \<in> E) (x # xs)"
    using v ch(1) by (simp add: valid_cycle_def)
  have "(x, last xs) \<in> E\<^sup>+" using chain_trancl [OF s ch(2)] .
  moreover have "last xs = x" using v ch by (simp add: valid_cycle_def)
  ultimately show ?thesis by (auto simp: acyclic_def)
qed

lemma edges_Domain: "(u, v) \<in> edges g \<Longrightarrow> u \<in> set (map fst g)"
  by (force simp: edges_def)

lemma all_black_acyclic:
  assumes "black_acyclic (edges g) c" "\<forall>k \<in> set (map fst g). c k = Some BLACK"
  shows "acyclic (edges g)"
proof (rule acyclicI, rule allI, rule notI)
  fix x assume "(x, x) \<in> (edges g)\<^sup>+"
  moreover from this obtain v where "(x, v) \<in> edges g" by (meson tranclD)
  then have "c x = Some BLACK" using assms(2) edges_Domain by blast
  ultimately show False using assms(1) by (simp add: black_acyclic_def)
qed

lemma map_of_const:
  "map_of (map (\<lambda>k. (k, v)) ks) k = (if k \<in> set ks then Some v else None)"
  by (induction ks) auto

lemma check_circular_dependencies_correct:
  assumes it: "set_order it" and wf: "wf_graph g"
  shows "(acyclic (edges g) \<longrightarrow> check_circular_dependencies it g = Some (Inr ()))
    \<and> (\<not> acyclic (edges g) \<longrightarrow>
         (\<exists>chain. check_circular_dependencies it g = Some (Inl (CircularDependencyError chain))
            \<and> valid_cycle (edges g) chain))"
proof -
  let ?c0 = "map_of (map (\<lambda>node. (node, WHITE)) (graph_keys g))"
  have c0: "\<And>k. ?c0 k = (if k \<in> set (map fst g) then Some WHITE else None)"
    unfolding graph_keys_def by (rule map_of_const)
  have inv0: "dfs_inv g ?c0 []"
    unfolding dfs_inv_def black_closed_def black_acyclic_def
    by (force simp: c0 split: if_splits)
  have w0: "whites g ?c0 < length g + 1"
    unfolding whites_def using length_filter_le [of _ "map fst g"]
    by (metis length_map less_Suc_eq_le Suc_eq_plus1)
  obtain r where r: "check_loop it g (length g + 1) ?c0 (graph_keys g) = Some r"
    "case r of Inl e \<Rightarrow> cycle_error (edges g) e
             | Inr c' \<Rightarrow> dfs_post g ?c0 c' \<and> (\<forall>x \<in> set (graph_keys g). c' x = Some BLACK)"
    using check_loop_correct [OF it wf inv0 _ w0, of "graph_keys g"]
    by (auto simp: graph_keys_def)
  show ?thesis
  proof (cases r)
    case (Inl e)
    then obtain chain where ch: "e = CircularDependencyError chain" "valid_cycle (edges g) chain"
      using r(2) by (auto simp: cycle_error_def)
    then have "\<not> acyclic (edges g)" using valid_cycle_not_acyclic by blast
    moreover have "check_circular_dependencies it g = Some (Inl (CircularDependencyError chain))"
      using r(1) Inl ch(1) by (simp add: check_circular_dependencies_def Let_def)
    ultimately show ?thesis using ch(2) by blast
  next
    case (Inr c')
    then have "black_acyclic (edges g) c'" "\<forall>k \<in> set (map fst g). c' k = Some BLACK"
      using r(2) by (auto simp: dfs_post_def graph_keys_def)
    then have "acyclic (edges g)" by (rule all_black_acyclic)
    moreover have "check_circular_dependencies it g = Some (Inr ())"
      using r(1) Inr by (simp add: check_circular_dependencies_def Let_def)
    ultimately show ?thesis by blast
  qed
qed


subsection \<open>Kahn's algorithm\<close>

lemma fold_count_edge:
  "distinct xs \<Longrightarrow> fold count_edge xs D
     = (\<lambda>v. if v \<in> set xs then Some ((case D v of None \<Rightarrow> 0 | Some k \<Rightarrow> k) + 1) else D v)"
proof (induction xs arbitrary: D)
  case Nil
  then show ?case by simp
next
  case (Cons x xs)
  have nin: "x \<notin> set xs" and dxs: "distinct xs" using Cons.prems by simp_all
  have "fold count_edge (x # xs) D = fold count_edge xs (count_edge x D)" by simp
  also have "\<dots> = (\<lambda>v. if v \<in> set xs
        then Some ((case (count_edge x D) v of None \<Rightarrow> 0 | Some k \<Rightarrow> k) + 1)
        else (count_edge x D) v)"
    using Cons.IH [OF dxs] .
  also have "\<dots> = (\<lambda>v. if v \<in> set (x # xs)
        then Some ((case D v of None \<Rightarrow> 0 | Some k \<Rightarrow> k) + 1) else D v)"
  proof (rule ext)
    fix v
    show "(if v \<in> set xs
        then Some ((case (count_edge x D) v of None \<Rightarrow> 0 | Some k \<Rightarrow> k) + 1)
        else (count_edge x D) v)
      = (if v \<in> set (x # xs) then Some ((case D v of None \<Rightarrow> 0 | Some k \<Rightarrow> k) + 1) else D v)"
      using nin by (cases "v = x") (auto simp: count_edge_def)
  qed
  finally show ?case .
qed

lemma fold_in_degree:
  assumes it: "set_order it" and wf: "wf_graph g"
  shows "D v = Some a \<Longrightarrow>
    fold (\<lambda>node in_degree. fold count_edge (it (graph_get g node)) in_degree) ks D v
      = Some (a + int (length (filter (\<lambda>k. v \<in> set (graph_get g k)) ks)))"
proof (induction ks arbitrary: D a)
  case Nil
  then show ?case by simp
next
  case (Cons k ks)
  let ?D1 = "fold count_edge (it (graph_get g k)) D"
  have nb: "set (it (graph_get g k)) = set (graph_get g k)" "distinct (it (graph_get g k))"
    using wf_graph_get [OF wf, of k] it by (auto simp: set_order_def)
  have "?D1 v = Some (a + (if v \<in> set (graph_get g k) then 1 else 0))"
    using Cons.prems nb by (simp add: fold_count_edge)
  from Cons.IH [of ?D1 "a + (if v \<in> set (graph_get g k) then 1 else 0)"] this
  show ?case by simp
qed

lemma graph_get_entry: "distinct (map fst g) \<Longrightarrow> (k, s) \<in> set g \<Longrightarrow> graph_get g k = s"
  by (simp add: graph_get_def)

lemma indeg_Nil:
  assumes "distinct (map fst g)"
  shows "int (length (filter (\<lambda>k. v \<in> set (graph_get g k)) (map fst g))) = indeg g [] v"
proof -
  have "filter (\<lambda>k. v \<in> set (graph_get g k)) (map fst g)
      = map fst (filter (\<lambda>e. v \<in> set (graph_get g (fst e))) g)"
    by (simp add: filter_map comp_def)
  moreover have "filter (\<lambda>e. v \<in> set (graph_get g (fst e))) g
      = filter (\<lambda>(u, s). v \<in> set s \<and> u \<notin> set []) g"
    using assms by (intro filter_cong) (auto simp: graph_get_entry)
  ultimately show ?thesis by (simp add: indeg_def)
qed

lemma calc_in_degree_indeg:
  assumes it: "set_order it" and wf: "wf_graph g" and v: "v \<in> set (map fst g)"
  shows "calc_in_degree it g v = Some (indeg g [] v)"
proof -
  have d: "distinct (map fst g)" using wf by (simp add: wf_graph_def)
  have "map_of (map (\<lambda>node. (node, 0::int)) (graph_keys g)) v = Some 0"
    using v unfolding graph_keys_def map_of_const by simp
  then have "fold (\<lambda>node in_degree. fold count_edge (it (graph_get g node)) in_degree)
      (graph_keys g) (map_of (map (\<lambda>node. (node, 0::int)) (graph_keys g))) v
     = Some (0 + int (length (filter (\<lambda>k. v \<in> set (graph_get g k)) (graph_keys g))))"
    by (rule fold_in_degree [OF it wf])
  then show ?thesis
    using indeg_Nil [OF d, of v] by (simp add: calc_in_degree_def graph_keys_def)
qed

lemma reduce_in_degree_eq:
  "distinct nbs \<Longrightarrow> (\<forall>v \<in> set nbs. D v \<noteq> None) \<Longrightarrow>
   reduce_in_degree nbs D Q
     = Inr (\<lambda>v. if v \<in> set nbs then map_option (\<lambda>k. k - 1) (D v) else D v,
            Q @ filter (\<lambda>v. D v = Some 1) nbs)"
proof (induction nbs arbitrary: D Q)
  case Nil
  then show ?case by simp
next
  case (Cons nb rest)
  from Cons.prems obtain k where k: "D nb = Some k" by auto
  let ?D1 = "D(nb \<mapsto> k - 1)" and ?Q1 = "if k - 1 = 0 then Q @ [nb] else Q"
  have nin: "nb \<notin> set rest" and dr: "distinct rest" using Cons.prems(1) by simp_all
  have "\<forall>v \<in> set rest. ?D1 v \<noteq> None" using Cons.prems(2) by simp
  from Cons.IH [OF dr this, of ?Q1]
  have "reduce_in_degree rest ?D1 ?Q1
     = Inr (\<lambda>v. if v \<in> set rest then map_option (\<lambda>k. k - 1) (?D1 v) else ?D1 v,
            ?Q1 @ filter (\<lambda>v. ?D1 v = Some 1) rest)" .
  moreover have "filter (\<lambda>v. ?D1 v = Some 1) rest = filter (\<lambda>v. D v = Some 1) rest"
    using nin by (intro filter_cong) auto
  moreover have "(\<lambda>v. if v \<in> set rest then map_option (\<lambda>k. k - 1) (?D1 v) else ?D1 v)
     = (\<lambda>v. if v \<in> set (nb # rest) then map_option (\<lambda>k. k - 1) (D v) else D v)"
    using nin k by (auto simp: fun_eq_iff)
  moreover have "?Q1 @ filter (\<lambda>v. D v = Some 1) rest
     = Q @ filter (\<lambda>v. D v = Some 1) (nb # rest)"
    using k by auto
  ultimately show ?case using k by simp
qed

lemma indeg_snoc_nat:
  assumes "node \<notin> set S"
  shows "distinct (map fst g) \<Longrightarrow>
    length (filter (\<lambda>(u, s). v \<in> set s \<and> u \<notin> set S) g)
     = length (filter (\<lambda>(u, s). v \<in> set s \<and> u \<notin> set (S @ [node])) g)
       + (if v \<in> set (graph_get g node) then 1 else 0)"
proof (induction g)
  case Nil
  then show ?case by (simp add: graph_get_def)
next
  case (Cons e g)
  obtain u s where e: "e = (u, s)" by (cases e)
  have d: "distinct (map fst g)" and un: "u \<notin> fst ` set g" using Cons.prems e by auto
  show ?case
  proof (cases "u = node")
    case True
    then have "filter (\<lambda>(u, s). v \<in> set s \<and> u \<notin> set (S @ [node])) g
        = filter (\<lambda>(u, s). v \<in> set s \<and> u \<notin> set S) g"
      using un by (intro filter_cong) force+
    moreover have "graph_get (e # g) node = s" using True e by (simp add: graph_get_def)
    ultimately show ?thesis using True e assms by simp
  next
    case False
    then have gg: "graph_get ((u, s) # g) node = graph_get g node" by (simp add: graph_get_def)
    have IH: "length (filter (\<lambda>(u, s). v \<in> set s \<and> u \<notin> set S) g)
     = length (filter (\<lambda>(u, s). v \<in> set s \<and> u \<notin> set (S @ [node])) g)
       + (if v \<in> set (graph_get g node) then 1 else 0)"
      using Cons.IH [OF d] .
    show ?thesis
    proof (cases "v \<in> set s \<and> u \<notin> set S")
      case True
      then show ?thesis unfolding e gg using IH \<open>u \<noteq> node\<close> by simp
    next
      case False
      then show ?thesis unfolding e gg using IH by auto
    qed
  qed
qed

lemma indeg_snoc:
  assumes "distinct (map fst g)" "node \<notin> set S"
  shows "indeg g (S @ [node]) v
     = indeg g S v - (if v \<in> set (graph_get g node) then 1 else 0)"
  using indeg_snoc_nat [OF assms(2) assms(1), of v] unfolding indeg_def by simp

lemma before_append: "before xs a b \<Longrightarrow> before (xs @ ys) a b"
  unfolding before_def
  by (metis length_append nth_append trans_less_add1 less_trans)

lemma before_snoc: "a \<in> set xs \<Longrightarrow> before (xs @ [b]) a b"
proof -
  assume "a \<in> set xs"
  then obtain i where "i < length xs" "xs ! i = a" by (auto simp: in_set_conv_nth)
  then have "i < length xs \<and> length xs < length (xs @ [b]) \<and> (xs @ [b]) ! i = a
      \<and> (xs @ [b]) ! length xs = b" by (simp add: nth_append)
  then show ?thesis unfolding before_def by blast
qed

lemma before_rev: "before xs a b \<Longrightarrow> before (rev xs) b a"
proof -
  assume "before xs a b"
  then obtain i j where ij: "i < j" "j < length xs" "xs ! i = a" "xs ! j = b"
    unfolding before_def by blast
  let ?i = "length xs - Suc j" and ?j = "length xs - Suc i"
  have "?i < ?j" "?j < length (rev xs)" using ij by auto
  moreover have "rev xs ! ?i = b" "rev xs ! ?j = a" using ij by (simp_all add: rev_nth)
  ultimately show ?thesis unfolding before_def by blast
qed

lemma distinct_subset_length:
  "distinct xs \<Longrightarrow> set xs \<subseteq> set ys \<Longrightarrow> length xs \<le> length ys"
  by (metis card_length card_mono distinct_card List.finite_set le_trans)


lemma indeg_zero_preds:
  assumes "indeg g S d = 0" "(m, d) \<in> edges g"
  shows "m \<in> set S"
proof -
  from assms(2) obtain s where s: "(m, s) \<in> set g" "d \<in> set s" by (auto simp: edges_def)
  from assms(1) have "filter (\<lambda>(u, s). d \<in> set s \<and> u \<notin> set S) g = []"
    by (simp add: indeg_def)
  then have "\<not> (d \<in> set s \<and> m \<notin> set S)" using s(1) by (auto simp: filter_empty_conv)
  then show ?thesis using s(2) by simp
qed

lemma kahn_step:
  assumes it: "set_order it" and wf: "wf_graph g" and inv: "kahn_inv g (node # Q) D S"
  shows "\<exists>D' Q'. reduce_in_degree (it (graph_get g node)) D Q = Inr (D', Q')
           \<and> kahn_inv g Q' D' (S @ [node])"
proof -
  let ?K = "set (map fst g)" and ?nbs = "it (graph_get g node)"
  let ?D' = "\<lambda>v. if v \<in> set ?nbs then map_option (\<lambda>k. k - 1) (D v) else D v"
  let ?new = "filter (\<lambda>v. D v = Some 1) ?nbs"
  have dk: "distinct (map fst g)" using wf by (simp add: wf_graph_def)
  have dist: "distinct (S @ node # Q)" and sub: "set (S @ node # Q) \<subseteq> ?K"
    and Dv: "\<forall>v \<in> ?K. D v = Some (indeg g S v)"
    and zero: "\<forall>v \<in> ?K. v \<in> set (S @ node # Q) \<longleftrightarrow> indeg g S v = 0"
    and ord: "\<forall>(m, d) \<in> edges g. d \<in> set S \<longrightarrow> before S m d"
    using inv by (auto simp: kahn_inv_def)
  have key: "node \<in> ?K" and nS: "node \<notin> set S" using sub dist by auto
  have nbs: "set ?nbs = set (graph_get g node)" "distinct ?nbs" "set ?nbs \<subseteq> ?K"
    using wf_graph_get [OF wf, of node] it by (auto simp: set_order_def)
  have snoc: "\<And>v. indeg g (S @ [node]) v = indeg g S v - (if v \<in> set ?nbs then 1 else 0)"
    using indeg_snoc [OF dk nS] nbs(1) by simp
  have nonneg: "\<And>v. 0 \<le> indeg g (S @ [node]) v" by (simp add: indeg_def)
  have pos: "\<And>v. v \<in> set ?nbs \<Longrightarrow> 1 \<le> indeg g S v"
    using snoc nonneg by (metis diff_ge_0_iff_ge)
  have red: "reduce_in_degree ?nbs D Q = Inr (?D', Q @ ?new)"
    using nbs(2,3) Dv by (intro reduce_in_degree_eq) auto
  have newsub: "set ?new \<subseteq> set ?nbs" by auto
  have newfresh: "\<And>v. v \<in> set ?new \<Longrightarrow> v \<notin> set (S @ node # Q)"
  proof -
    fix v assume v: "v \<in> set ?new"
    then have "v \<in> ?K" "D v = Some 1" using nbs(3) by auto
    then have "indeg g S v = 1" using Dv by simp
    then have "indeg g S v \<noteq> 0" by simp
    then show "v \<notin> set (S @ node # Q)" using zero \<open>v \<in> ?K\<close> by blast
  qed
  have a: "distinct ((S @ [node]) @ Q @ ?new)"
  proof -
    have "distinct ?new" using nbs(2) by simp
    moreover have "set (S @ node # Q) \<inter> set ?new = {}" using newfresh by blast
    ultimately show ?thesis using dist by auto
  qed
  have a2: "set ((S @ [node]) @ Q @ ?new) \<subseteq> ?K" using sub nbs(3) by auto
  have b: "\<forall>v \<in> ?K. ?D' v = Some (indeg g (S @ [node]) v)"
  proof
    fix v assume "v \<in> ?K"
    then have "D v = Some (indeg g S v)" using Dv by blast
    then show "?D' v = Some (indeg g (S @ [node]) v)" using snoc [of v] by simp
  qed
  have c: "\<forall>v \<in> ?K. v \<in> set ((S @ [node]) @ Q @ ?new) \<longleftrightarrow> indeg g (S @ [node]) v = 0"
  proof
    fix v assume vK: "v \<in> ?K"
    show "v \<in> set ((S @ [node]) @ Q @ ?new) \<longleftrightarrow> indeg g (S @ [node]) v = 0"
    proof (cases "v \<in> set ?nbs")
      case True
      then have "indeg g S v \<noteq> 0" using pos [of v] by simp
      then have "v \<notin> set (S @ node # Q)" using zero vK by blast
      moreover have "D v = Some (indeg g S v)" using Dv vK by blast
      then have "v \<in> set ?new \<longleftrightarrow> indeg g S v = 1" using True by simp
      moreover have "indeg g (S @ [node]) v = indeg g S v - 1" using snoc True by simp
      ultimately show ?thesis by auto
    next
      case False
      then have "v \<notin> set ?new" by simp
      moreover have "indeg g (S @ [node]) v = indeg g S v" using snoc False by simp
      ultimately show ?thesis using zero vK by auto
    qed
  qed
  have d: "\<forall>(m, d) \<in> edges g. d \<in> set (S @ [node]) \<longrightarrow> before (S @ [node]) m d"
  proof clarify
    fix m d assume e: "(m, d) \<in> edges g" and din: "d \<in> set (S @ [node])"
    show "before (S @ [node]) m d"
    proof (cases "d \<in> set S")
      case True
      then have "before S m d" using ord e by blast
      then show ?thesis by (rule before_append)
    next
      case False
      then have dn: "d = node" using din by simp
      have "node \<in> set (S @ node # Q)" by simp
      then have "indeg g S node = 0" using zero key by blast
      then have "m \<in> set S" using indeg_zero_preds e dn by blast
      then show ?thesis unfolding dn by (rule before_snoc)
    qed
  qed
  have "kahn_inv g (Q @ ?new) ?D' (S @ [node])"
    unfolding kahn_inv_def using a a2 b c d by blast
  then show ?thesis using red by blast
qed

lemma graph_getitem_key:
  "k \<in> set (map fst g) \<Longrightarrow> graph_getitem g k = (graph_get g k, g)"
  by (auto simp: graph_getitem_def graph_get_def map_of_eq_None_iff split: option.splits)

lemma kahn_loop_correct:
  "set_order it \<Longrightarrow> wf_graph g \<Longrightarrow> kahn_inv g Q D S \<Longrightarrow> length g < n + length S \<Longrightarrow>
   \<exists>S' D'. kahn_loop it n g Q D S = Some (Inr (S', g)) \<and> kahn_inv g [] D' S'"
proof (induction n arbitrary: Q D S)
  case 0
  have "distinct S" "set S \<subseteq> set (map fst g)" using "0.prems"(3) by (auto simp: kahn_inv_def)
  then have "length S \<le> length (map fst g)" by (rule distinct_subset_length)
  then show ?case using "0.prems"(4) by simp
next
  case (Suc n)
  note it = Suc.prems(1) and wf = Suc.prems(2) and inv = Suc.prems(3) and fuel = Suc.prems(4)
  show ?case
  proof (cases Q)
    case Nil
    then show ?thesis using inv by auto
  next
    case (Cons node rest)
    have key: "node \<in> set (map fst g)" using inv Cons by (auto simp: kahn_inv_def)
    obtain D1 Q1 where st: "reduce_in_degree (it (graph_get g node)) D rest = Inr (D1, Q1)"
        "kahn_inv g Q1 D1 (S @ [node])"
      using kahn_step [OF it wf] inv Cons by blast
    have "length g < n + length (S @ [node])" using fuel by simp
    from Suc.IH [OF it wf st(2) this] obtain S' D' where
      "kahn_loop it n g Q1 D1 (S @ [node]) = Some (Inr (S', g))" "kahn_inv g [] D' S'" by blast
    then show ?thesis using Cons st(1) graph_getitem_key [OF key] by auto
  qed
qed

lemma edges_finite: "finite (edges g)"
proof -
  have "edges g \<subseteq> (\<Union>(k, s) \<in> set g. (\<lambda>d. (k, d)) ` set s)" by (auto simp: edges_def)
  moreover have "finite (\<Union>(k, s) \<in> set g. (\<lambda>d. (k, d)) ` set s)" by auto
  ultimately show ?thesis by (rule finite_subset)
qed

lemma kahn_complete:
  assumes inv: "kahn_inv g [] D S" and acyc: "acyclic (edges g)"
  shows "set S = set (map fst g)"
proof (rule ccontr)
  let ?K = "set (map fst g)"
  assume ne: "set S \<noteq> ?K"
  have sub: "set S \<subseteq> ?K" and zero: "\<forall>v \<in> ?K. v \<in> set S \<longleftrightarrow> indeg g S v = 0"
    using inv by (auto simp: kahn_inv_def)
  from ne sub obtain x where x: "x \<in> ?K - set S" by blast
  have "wf (edges g)" using edges_finite acyc by (rule finite_acyclic_wf)
  then obtain z where z: "z \<in> ?K - set S" "\<And>y. (y, z) \<in> edges g \<Longrightarrow> y \<notin> ?K - set S"
    using x by (rule wfE_min) blast
  then have "indeg g S z \<noteq> 0" using zero by blast
  then have "filter (\<lambda>(u, s). z \<in> set s \<and> u \<notin> set S) g \<noteq> []" by (simp add: indeg_def)
  then obtain u s where us: "(u, s) \<in> set g" "z \<in> set s" "u \<notin> set S"
    by (auto simp: filter_empty_conv)
  then have "(u, z) \<in> edges g" "u \<in> ?K - set S" by (force simp: edges_def)+
  then show False using z(2) by blast
qed

lemma topological_sort_correct:
  assumes it: "set_order it" and wf: "wf_graph g" and acyc: "acyclic (edges g)"
  shows "\<exists>order. topological_sort it g = Some (Inr order) \<and> distinct order
     \<and> set order = set (map fst g) \<and> (\<forall>(m, d) \<in> edges g. before order d m)"
proof -
  let ?K = "set (map fst g)" and ?D0 = "calc_in_degree it g"
  let ?Q0 = "filter (\<lambda>node. ?D0 node = Some 0) (graph_keys g)"
  have dk: "distinct (map fst g)" using wf by (simp add: wf_graph_def)
  have D0: "\<forall>v \<in> ?K. ?D0 v = Some (indeg g [] v)"
    using calc_in_degree_indeg [OF it wf] by blast
  have inv0: "kahn_inv g ?Q0 ?D0 []"
    unfolding kahn_inv_def using dk D0 by (auto simp: graph_keys_def)
  obtain S D' where S: "kahn_loop it (length g + 1) g ?Q0 ?D0 [] = Some (Inr (S, g))"
      "kahn_inv g [] D' S"
    using kahn_loop_correct [OF it wf inv0, of "length g + 1"] by auto
  have setS: "set S = ?K" using S(2) acyc by (rule kahn_complete)
  have dS: "distinct S" using S(2) by (simp add: kahn_inv_def)
  have "length S = length g"
    using setS dS dk by (metis distinct_card length_map)
  then have "topological_sort it g = Some (Inr (rev S))"
    using S(1) by (simp add: topological_sort_def Let_def)
  moreover have "\<forall>(m, d) \<in> edges g. before (rev S) d m"
  proof clarify
    fix m d assume e: "(m, d) \<in> edges g"
    then obtain s where "(m, s) \<in> set g" "d \<in> set s" by (auto simp: edges_def)
    then have "d \<in> ?K" using wf by (auto simp: wf_graph_def)
    then have "before S m d" using S(2) e setS by (auto simp: kahn_inv_def)
    then show "before (rev S) d m" by (rule before_rev)
  qed
  ultimately show ?thesis using dS setS by auto
qed


subsection \<open>\<open>resolve_load_order\<close> always returns\<close>

lemma add_dependencies_Inr:
  "add_dependencies ids m deps g = Inr g' \<Longrightarrow> \<forall>d \<in> set deps. mod_id d \<in> ids"
  by (induction deps arbitrary: g) (auto split: if_splits)

lemma build_loop_Inr:
  "build_loop ids ms g = Inr g' \<Longrightarrow>
   \<forall>m \<in> set ms. \<forall>d \<in> set (dependencies m). mod_id d \<in> ids"
proof (induction ms arbitrary: g)
  case Nil
  then show ?case by simp
next
  case (Cons m ms)
  let ?g1 = "if id_mod m \<in> set (graph_keys g) then g else g @ [(id_mod m, [])]"
  from Cons.prems obtain g2 where g2: "add_dependencies ids m (dependencies m) ?g1 = Inr g2"
      "build_loop ids ms g2 = Inr g'"
    by (auto simp: Let_def split: sum.splits)
  have "\<forall>d \<in> set (dependencies m). mod_id d \<in> ids" using g2(1) by (rule add_dependencies_Inr)
  moreover have "\<forall>m \<in> set ms. \<forall>d \<in> set (dependencies m). mod_id d \<in> ids"
    using g2(2) by (rule Cons.IH)
  ultimately show ?case by simp
qed

lemma build_dependency_graph_Inr:
  "build_dependency_graph mods = Inr g \<Longrightarrow> deps_present mods"
  unfolding build_dependency_graph_def deps_present_def
  using build_loop_Inr [of "set (map id_mod mods)" mods "[]" g] by simp

text \<open>The budgets of the model never run out: for every list of mods,
  \<open>resolve_load_order\<close> returns a load order or raises.\<close>

lemma resolve_load_order_returns:
  assumes "set_order it"
  shows "fst (resolve_load_order it reg mods) \<noteq> None"
proof (cases "build_dependency_graph mods")
  case (Inl e)
  then show ?thesis by (simp add: resolve_load_order_def Let_def)
next
  case (Inr g)
  then have "deps_present mods" by (rule build_dependency_graph_Inr)
  then have wf: "wf_graph g" using build_dependency_graph_ok Inr by fastforce
  show ?thesis
  proof (cases "acyclic (edges g)")
    case True
    then have "check_circular_dependencies it g = Some (Inr ())"
      using check_circular_dependencies_correct [OF assms wf] by blast
    moreover obtain order where "topological_sort it g = Some (Inr order)"
      using topological_sort_correct [OF assms wf True] by blast
    ultimately show ?thesis using Inr by (simp add: resolve_load_order_def Let_def)
  next
    case False
    then obtain chain where
      "check_circular_dependencies it g = Some (Inl (CircularDependencyError chain))"
      using check_circular_dependencies_correct [OF assms wf] by blast
    then show ?thesis using Inr by (simp add: resolve_load_order_def Let_def)
  qed
qed


subsection \<open>Load order\<close>

text \<open>
  C1. For every acyclic list of mods in which each declared dependency identifier is the
  identifier of a mod of the list, and for every order in which the interpreter may
  enumerate sets, \<open>resolve_load_order\<close> returns a list that holds every input mod
  identifier exactly once, and in which, for every dependency edge (\<open>m\<close> depends on
  \<open>d\<close>), \<open>d\<close> stands at a smaller index than \<open>m\<close>.
\<close>

theorem resolve_load_order_topological:
  assumes "set_order it" and "deps_present mods" and "acyclic (depends_on mods)"
  shows "\<exists>order. fst (resolve_load_order it reg mods) = Some (Inr order)
     \<and> distinct order \<and> set order = id_mod ` set mods
     \<and> (\<forall>(m, d) \<in> depends_on mods. before order d m)"
proof -
  obtain g where g: "build_dependency_graph mods = Inr g" "wf_graph g"
      "set (map fst g) = id_mod ` set mods" "edges g = depends_on mods"
    using build_dependency_graph_ok [OF assms(2)] by blast
  have acyc: "acyclic (edges g)" using assms(3) g(4) by simp
  have chk: "check_circular_dependencies it g = Some (Inr ())"
    using check_circular_dependencies_correct [OF assms(1) g(2)] acyc by blast
  obtain order where o: "topological_sort it g = Some (Inr order)" "distinct order"
      "set order = set (map fst g)" "\<forall>(m, d) \<in> edges g. before order d m"
    using topological_sort_correct [OF assms(1) g(2) acyc] by blast
  have "fst (resolve_load_order it reg mods) = Some (Inr order)"
    using g(1) chk o(1) by (simp add: resolve_load_order_def Let_def)
  then show ?thesis using o g by auto
qed

text \<open>
  C2 (as amended). For every list of mods in which each declared dependency identifier is
  present and whose dependency edges contain a cycle, \<open>resolve_load_order\<close> raises
  \<open>CircularDependencyError\<close>, and the chain it carries is a valid cycle: consecutive
  elements are dependency edges and the chain returns to its first element.
\<close>

theorem resolve_load_order_cycle:
  assumes "set_order it" and "deps_present mods" and "\<not> acyclic (depends_on mods)"
  shows "\<exists>chain. fst (resolve_load_order it reg mods) = Some (Inl (CircularDependencyError chain))
     \<and> valid_cycle (depends_on mods) chain"
proof -
  obtain g where g: "build_dependency_graph mods = Inr g" "wf_graph g"
      "set (map fst g) = id_mod ` set mods" "edges g = depends_on mods"
    using build_dependency_graph_ok [OF assms(2)] by blast
  have "\<not> acyclic (edges g)" using assms(3) g(4) by simp
  then obtain chain where ch:
      "check_circular_dependencies it g = Some (Inl (CircularDependencyError chain))"
      "valid_cycle (edges g) chain"
    using check_circular_dependencies_correct [OF assms(1) g(2)] by blast
  have "fst (resolve_load_order it reg mods) = Some (Inl (CircularDependencyError chain))"
    using g(1) ch(1) by (simp add: resolve_load_order_def Let_def)
  then show ?thesis using ch(2) g(4) by auto
qed

subsection \<open>Concrete inputs\<close>

lemma set_order_insertion: "set_order insertion_order"
  by (simp add: set_order_def insertion_order_def)

lemma depends_on_code:
  "depends_on mods
     = set (concat (map (\<lambda>m. map (\<lambda>d. (id_mod m, mod_id d)) (dependencies m)) mods))"
  by (auto simp: depends_on_def)

lemma depends_on_chain_mods: "depends_on chain_mods = {(''x-C'', ''x-B''), (''x-B'', ''x-A'')}"
  by (simp add: depends_on_code chain_mods_def mk_mod_def)

lemma acyclic_chain: "acyclic {(''x-C'', ''x-B''), (''x-B'', ''x-A'')}"
  by code_simp

lemma resolve_chain:
  "fst (resolve_load_order insertion_order Map.empty chain_mods)
     = Some (Inr [''x-A'', ''x-B'', ''x-C''])"
  by code_simp

text \<open>C1 at the specification's scenario: \<open>C\<close> depends on \<open>B\<close>, \<open>B\<close> on \<open>A\<close>.\<close>

theorem resolve_load_order_topological_witness:
  "set_order insertion_order \<and> deps_present chain_mods \<and> acyclic (depends_on chain_mods)
   \<and> fst (resolve_load_order insertion_order Map.empty chain_mods)
       = Some (Inr [''x-A'', ''x-B'', ''x-C''])
   \<and> (\<exists>order. fst (resolve_load_order insertion_order Map.empty chain_mods) = Some (Inr order)
     \<and> distinct order \<and> set order = id_mod ` set chain_mods
     \<and> (\<forall>(m, d) \<in> depends_on chain_mods. before order d m))"
proof -
  have h1: "set_order insertion_order" by (rule set_order_insertion)
  have h2: "deps_present chain_mods" by (simp add: deps_present_def chain_mods_def mk_mod_def)
  have h3: "acyclic (depends_on chain_mods)"
    unfolding depends_on_chain_mods by (rule acyclic_chain)
  from resolve_load_order_topological [OF h1 h2 h3, of Map.empty] resolve_chain h1 h2 h3
  show ?thesis by blast
qed

lemma depends_on_mutual_mods: "depends_on mutual_mods = {(''x-A'', ''x-B''), (''x-B'', ''x-A'')}"
  by (simp add: depends_on_code mutual_mods_def mk_mod_def)

lemma depends_on_self_mods: "depends_on self_mods = {(''x-A'', ''x-A'')}"
  by (simp add: depends_on_code self_mods_def mk_mod_def)

lemma not_acyclic_mutual: "\<not> acyclic {(''x-A'', ''x-B''), (''x-B'', ''x-A'')}"
  by code_simp

lemma not_acyclic_self: "\<not> acyclic {(''x-A'', ''x-A'')}"
  by code_simp

lemma resolve_mutual:
  "fst (resolve_load_order insertion_order Map.empty mutual_mods)
     = Some (Inl (CircularDependencyError [''x-A'', ''x-B'', ''x-A'']))"
  by code_simp

lemma resolve_self:
  "fst (resolve_load_order insertion_order Map.empty self_mods)
     = Some (Inl (CircularDependencyError [''x-A'', ''x-A'']))"
  by code_simp

text \<open>C2 (as amended) at a mutual dependency of two mods and at a mod that depends on
  itself.\<close>

theorem resolve_load_order_cycle_witness:
  "set_order insertion_order \<and> deps_present mutual_mods \<and> \<not> acyclic (depends_on mutual_mods)
   \<and> fst (resolve_load_order insertion_order Map.empty mutual_mods)
       = Some (Inl (CircularDependencyError [''x-A'', ''x-B'', ''x-A'']))
   \<and> valid_cycle (depends_on mutual_mods) [''x-A'', ''x-B'', ''x-A'']
   \<and> deps_present self_mods \<and> \<not> acyclic (depends_on self_mods)
   \<and> fst (resolve_load_order insertion_order Map.empty self_mods)
       = Some (Inl (CircularDependencyError [''x-A'', ''x-A'']))
   \<and> valid_cycle (depends_on self_mods) [''x-A'', ''x-A'']"
proof -
  have h1: "set_order insertion_order" by (rule set_order_insertion)
  have h2: "deps_present mutual_mods" by (simp add: deps_present_def mutual_mods_def mk_mod_def)
  have h3: "\<not> acyclic (depends_on mutual_mods)"
    unfolding depends_on_mutual_mods by (rule not_acyclic_mutual)
  have k2: "deps_present self_mods" by (simp add: deps_present_def self_mods_def mk_mod_def)
  have k3: "\<not> acyclic (depends_on self_mods)"
    unfolding depends_on_self_mods by (rule not_acyclic_self)
  have "valid_cycle (depends_on mutual_mods) [''x-A'', ''x-B'', ''x-A'']"
    using resolve_load_order_cycle [OF h1 h2 h3, of Map.empty] resolve_mutual by auto
  moreover have "valid_cycle (depends_on self_mods) [''x-A'', ''x-A'']"
    using resolve_load_order_cycle [OF h1 k2 k3, of Map.empty] resolve_self by auto
  ultimately show ?thesis using h1 h2 h3 k2 k3 resolve_mutual resolve_self by blast
qed

lemma depends_on_cycle_missing:
  "depends_on cycle_missing_mods = {(''x-A'', ''x-A''), (''x-A'', ''x-Z'')}"
  by (simp add: depends_on_code cycle_missing_mods_def mk_mod_def)

lemma not_acyclic_cycle_missing: "\<not> acyclic {(''x-A'', ''x-A''), (''x-A'', ''x-Z'')}"
  by code_simp

text \<open>
  C2 (as stated) fails: a mod that depends on itself and on an identifier that is not in
  the list has a cycle among its dependency edges, yet \<open>resolve_load_order\<close> raises
  \<open>MissingDependencyError\<close>, because the graph is built, and checked for missing
  identifiers, before the cycle check runs.
\<close>

theorem resolve_load_order_cycle_missing_counterexample:
  "\<not> acyclic (depends_on cycle_missing_mods)
   \<and> fst (resolve_load_order insertion_order Map.empty cycle_missing_mods)
       = Some (Inl (MissingDependencyError ''x-A'' ''x-Z'' ''*''))"
proof -
  have "\<not> acyclic (depends_on cycle_missing_mods)"
    unfolding depends_on_cycle_missing by (rule not_acyclic_cycle_missing)
  moreover have "fst (resolve_load_order insertion_order Map.empty cycle_missing_mods)
       = Some (Inl (MissingDependencyError ''x-A'' ''x-Z'' ''*''))"
    by code_simp
  ultimately show ?thesis by blast
qed


subsection \<open>Dependency queries and automatic resolution\<close>

lemma get_all_dependencies_recursive_nil: "get_all_dependencies reg m True = Some []"
proof (cases "reg m")
  case None
  then show ?thesis by (simp add: get_all_dependencies_def)
next
  case (Some md)
  have "bfs_loop reg m [m] {} [] = bfs_loop reg m [] {} []"
    by (subst bfs_loop.simps) simp
  also have "\<dots> = Some []" by (subst bfs_loop.simps) simp
  finally show ?thesis using Some by (simp add: get_all_dependencies_def)
qed

text \<open>
  C5 fails on the code. The claim: for a registered mod, the recursive query returns
  exactly the identifiers reachable through dependency edges, the origin left out. The
  code: the queue starts with the origin alone, the loop skips the origin without
  reading its dependencies, and the queue is empty afterwards. So the recursive query
  returns the empty list for every registry and every identifier, here for a mod
  \<open>x-A\<close> whose direct dependency \<open>x-B\<close> the non-recursive query does report.
\<close>

theorem get_all_dependencies_recursive_returns_nothing:
  "get_all_dependencies dep_registry ''x-A'' False = Some [''x-B'']
   \<and> get_all_dependencies dep_registry ''x-A'' True = Some []
   \<and> get_all_dependencies reg m True = Some []"
proof -
  have "get_all_dependencies dep_registry ''x-A'' False = Some [''x-B'']"
    by (simp add: get_all_dependencies_def dep_registry_def mk_mod_def)
  then show ?thesis using get_all_dependencies_recursive_nil by simp
qed

text \<open>
  C6 fails on the code. The claim: an identifier that is requested or referenced but is
  not in the catalog is skipped, and a load order is still returned. The code skips the
  identifier in its work loop, then hands the collected mods to \<open>resolve_load_order\<close>,
  whose graph construction raises \<open>MissingDependencyError\<close> for the dependency that was
  skipped: \<open>x-X\<close> depends on \<open>x-Y\<close>, which the catalog does not hold. A requested
  identifier that no collected mod depends on (\<open>x-Q\<close>) is skipped as the claim says.
\<close>

theorem auto_resolve_dependencies_missing_dependency_raises:
  "fst (auto_resolve_dependencies insertion_order Map.empty [''x-X''] dangling_catalog)
     = Some (Inl (MissingDependencyError ''x-X'' ''x-Y'' ''*''))
   \<and> fst (auto_resolve_dependencies insertion_order Map.empty [''x-X'', ''x-Q''] full_catalog)
     = Some (Inr [''x-Y'', ''x-X''])"
  by code_simp


section \<open>Properties of the hash cache\<close>

lemma map_of_cache_del_same: "map_of (cache_del c key) key = None"
  by (induction c) (auto simp: cache_del_def)

lemma map_of_cache_del_other: "k \<noteq> key \<Longrightarrow> map_of (cache_del c key) k = map_of c k"
  by (induction c) (auto simp: cache_del_def)

text \<open>
  C9. For every cached file entry, \<open>HashCache.get\<close> returns the cached fingerprint when
  the file's current \<open>stat()\<close> modification time and size both equal the cached values,
  and only then; when either differs, or \<open>stat()\<close> fails, it returns \<open>None\<close> and
  removes the entry, leaving the other entries as they were. The file's content is never
  read, so a content that still hashes to the cached fingerprint changes nothing.
\<close>

theorem HashCache_get_hit_iff_unchanged:
  assumes "map_of (cache hc) key = Some (h, mt, sz)"
  shows "((\<exists>st. stat key = Some st \<and> st_mtime st = mt \<and> st_size st = sz)
            \<longrightarrow> fst (HashCache_get stat hc key) = Some h)
    \<and> (\<not> (\<exists>st. stat key = Some st \<and> st_mtime st = mt \<and> st_size st = sz)
            \<longrightarrow> fst (HashCache_get stat hc key) = None
              \<and> map_of (cache (snd (HashCache_get stat hc key))) key = None
              \<and> (\<forall>k. k \<noteq> key \<longrightarrow>
                    map_of (cache (snd (HashCache_get stat hc key))) k = map_of (cache hc) k))"
  using assms
  by (auto simp: HashCache_get_def map_of_cache_del_same map_of_cache_del_other
      split: option.splits)

text \<open>C9 at a cache of one entry, for a file left alone and for the same file after its
  modification time was changed.\<close>

theorem HashCache_get_hit_iff_unchanged_witness:
  "map_of (cache one_entry_cache) ''/game/a.dll'' = Some (''9f3a'', 100, 42)
   \<and> fst (HashCache_get untouched_stat one_entry_cache ''/game/a.dll'') = Some ''9f3a''
   \<and> fst (HashCache_get touched_stat one_entry_cache ''/game/a.dll'') = None
   \<and> map_of (cache (snd (HashCache_get touched_stat one_entry_cache ''/game/a.dll'')))
        ''/game/a.dll'' = None
   \<and> cache (snd (HashCache_get touched_stat one_entry_cache ''/game/a.dll'')) = []"
proof -
  have h: "map_of (cache one_entry_cache) ''/game/a.dll'' = Some (''9f3a'', 100, 42)"
    by (simp add: one_entry_cache_def)
  have u: "\<exists>st. untouched_stat ''/game/a.dll'' = Some st \<and> st_mtime st = 100 \<and> st_size st = 42"
    by (simp add: untouched_stat_def)
  have t: "\<not> (\<exists>st. touched_stat ''/game/a.dll'' = Some st \<and> st_mtime st = 100 \<and> st_size st = 42)"
    by (simp add: touched_stat_def)
  have "fst (HashCache_get untouched_stat one_entry_cache ''/game/a.dll'') = Some ''9f3a''"
    using HashCache_get_hit_iff_unchanged [OF h, of untouched_stat] u by blast
  moreover have "fst (HashCache_get touched_stat one_entry_cache ''/game/a.dll'') = None
     \<and> map_of (cache (snd (HashCache_get touched_stat one_entry_cache ''/game/a.dll'')))
          ''/game/a.dll'' = None"
    using HashCache_get_hit_iff_unchanged [OF h, of touched_stat] t by blast
  moreover have "cache (snd (HashCache_get touched_stat one_entry_cache ''/game/a.dll'')) = []"
    by (simp add: HashCache_get_def one_entry_cache_def touched_stat_def cache_del_def)
  ultimately show ?thesis using h by blast
qed


section \<open>Properties of the deployment engine\<close>

subsection \<open>\<open>deploy_profile\<close> behind its decorator\<close>

text \<open>
  C4. For every profile and every progress callback, in every state of the engine,
  \<open>deploy_profile\<close> raises \<open>TypeError\<close>, and does so before the game path is validated
  and before anything is changed: the engine's filesystem, database and checkpoint, and
  the profile, are as they were. The decorator \<open>with_rollback\<close> calls
  \<open>self.create_checkpoint()\<close> without the \<open>profile\<close> argument that the method
  requires.
\<close>

theorem deploy_profile_raises_TypeError:
  "deploy_profile ev eng profile cb = (Inl TypeError, eng, profile)"
  by (simp add: deploy_profile_def with_rollback_def create_checkpoint_call_def)

text \<open>
  C3 fails on the code. The claim: an exception raised while changes are applied
  triggers a rollback, and the call fails with \<open>DeploymentFailedError\<close>. At a game
  directory in which \<open>BepInEx\<close> is a regular file, the method's own body does raise
  \<open>DeploymentFailedError\<close> from its \<open>try\<close> block (creating the plugins directory
  fails), but the decorated method never gets that far: it raises \<open>TypeError\<close>, leaves
  everything untouched and rolls nothing back.
\<close>

theorem deploy_profile_no_rollback_on_failure:
  "fst (deploy_profile_body toy_env blocked_engine profile_p None) = Inl DeploymentFailedError
   \<and> deploy_profile toy_env blocked_engine profile_p None = (Inl TypeError, blocked_engine, profile_p)"
proof -
  have "fst (deploy_profile_body toy_env blocked_engine profile_p None) = Inl DeploymentFailedError"
    by code_simp
  moreover have "deploy_profile toy_env blocked_engine profile_p None
      = (Inl TypeError, blocked_engine, profile_p)"
    by (simp add: deploy_profile_def with_rollback_def create_checkpoint_call_def)
  ultimately show ?thesis by blast
qed


subsection \<open>\<open>calculate_changes\<close>\<close>

lemma dict_set_keys:
  "map fst (dict_set d k v) = (if map_of d k = None then map fst d @ [k] else map fst d)"
  by (induction d) (auto simp: dict_set_def)

lemma dict_set_distinct: "distinct (map fst d) \<Longrightarrow> distinct (map fst (dict_set d k v))"
  by (auto simp: dict_set_keys map_of_eq_None_iff)

lemma state_of_files_distinct:
  "distinct (map fst ns) \<Longrightarrow> state_of_files h fs pd m ip srcs ns = Inr ns' \<Longrightarrow>
   distinct (map fst ns')"
proof (induction srcs arbitrary: ns)
  case Nil
  then show ?case by simp
next
  case (Cons a srcs)
  from Cons.prems(2) obtain fh where fh: "calculate_file_hash h fs a = Inr fh"
      "state_of_files h fs pd m ip srcs (dict_set ns (dst_of pd m ip a) fh) = Inr ns'"
    by (auto split: sum.splits)
  have "distinct (map fst (dict_set ns (dst_of pd m ip a) fh))"
    using Cons.prems(1) by (rule dict_set_distinct)
  then show ?case using Cons.IH fh(2) by blast
qed

lemma state_of_mods_distinct:
  "distinct (map fst ns) \<Longrightarrow> state_of_mods h fs profile ms ns = Inr ns' \<Longrightarrow>
   distinct (map fst ns')"
proof (induction ms arbitrary: ns)
  case Nil
  then show ?case by simp
next
  case (Cons m ms)
  then show ?case
    by (auto split: option.splits if_splits sum.splits dest: state_of_files_distinct)
qed

lemma compare_states_empty:
  assumes "distinct (map fst new)"
  shows "(to_add (compare_states cur new) = [] \<and> to_update (compare_states cur new) = []
          \<and> to_remove (compare_states cur new) = [])
     \<longleftrightarrow> map_of new = map_of cur"
proof
  assume e: "to_add (compare_states cur new) = [] \<and> to_update (compare_states cur new) = []
          \<and> to_remove (compare_states cur new) = []"
  have inn: "\<And>p fh. (p, fh) \<in> set new \<Longrightarrow> map_of cur p = Some fh"
  proof -
    fix p fh assume m: "(p, fh) \<in> set new"
    from e m have "map_of cur p \<noteq> None"
      by (auto simp: compare_states_def filter_empty_conv)
    moreover from e m have "\<not> (case map_of cur p of None \<Rightarrow> False | Some fh' \<Rightarrow> fh' \<noteq> fh)"
      by (auto simp: compare_states_def filter_empty_conv)
    ultimately show "map_of cur p = Some fh" by (auto split: option.splits)
  qed
  have rem: "\<And>p. p \<in> fst ` set cur \<Longrightarrow> map_of new p \<noteq> None"
    using e by (auto simp: compare_states_def filter_empty_conv)
  show "map_of new = map_of cur"
  proof (rule ext)
    fix p
    show "map_of new p = map_of cur p"
    proof (cases "map_of new p")
      case None
      then have "p \<notin> fst ` set cur" using rem by blast
      then have "map_of cur p = None" by (simp add: map_of_eq_None_iff)
      then show ?thesis using None by simp
    next
      case (Some fh)
      then have "(p, fh) \<in> set new" by (rule map_of_SomeD)
      then show ?thesis using inn Some by simp
    qed
  qed
next
  assume eq: "map_of new = map_of cur"
  have inn: "\<And>p fh. (p, fh) \<in> set new \<Longrightarrow> map_of cur p = Some fh"
    using assms eq by (metis map_of_is_SomeI)
  have "filter (\<lambda>(p, fh). map_of cur p = None) new = []"
    using inn by (auto simp: filter_empty_conv)
  moreover have "filter (\<lambda>(p, fh). case map_of cur p of None \<Rightarrow> False | Some fh' \<Rightarrow> fh' \<noteq> fh) new = []"
    using inn by (auto simp: filter_empty_conv)
  moreover have "filter (\<lambda>p. map_of new p = None) (map fst cur) = []"
    unfolding eq by (auto simp: filter_empty_conv map_of_eq_None_iff)
  ultimately show "to_add (compare_states cur new) = [] \<and> to_update (compare_states cur new) = []
          \<and> to_remove (compare_states cur new) = []"
    by (simp add: compare_states_def)
qed

text \<open>
  C7 (as amended). \<open>calculate_changes\<close> only reads: it leaves the database, the
  filesystem and the checkpoint as they are, so a second call with nothing changed in
  between returns what the first call returned. The three lists it returns are all empty
  exactly when the stored deployment state of the profile equals the state computed from
  the mods' files.
\<close>

theorem calculate_changes_read_only:
  "snd (calculate_changes ev eng profile ms) = eng
   \<and> calculate_changes ev (snd (calculate_changes ev eng profile ms)) profile ms
       = calculate_changes ev eng profile ms
   \<and> (\<forall>ch. fst (calculate_changes ev eng profile ms) = Inr ch \<longrightarrow>
         ((to_add ch = [] \<and> to_update ch = [] \<and> to_remove ch = [])
          \<longleftrightarrow> (\<exists>new_state. state_of_mods (hash_fn ev) (files eng) profile ms [] = Inr new_state
                 \<and> map_of new_state
                     = map_of (get_deployment_state (db_rows eng) (profile_name profile)))))"
proof -
  have ro: "snd (calculate_changes ev eng profile ms) = eng"
    by (simp add: calculate_changes_def Let_def split: sum.splits)
  have em: "\<forall>ch. fst (calculate_changes ev eng profile ms) = Inr ch \<longrightarrow>
         ((to_add ch = [] \<and> to_update ch = [] \<and> to_remove ch = [])
          \<longleftrightarrow> (\<exists>new_state. state_of_mods (hash_fn ev) (files eng) profile ms [] = Inr new_state
                 \<and> map_of new_state
                     = map_of (get_deployment_state (db_rows eng) (profile_name profile))))"
  proof (intro allI impI)
    fix ch assume r: "fst (calculate_changes ev eng profile ms) = Inr ch"
    let ?cur = "get_deployment_state (db_rows eng) (profile_name profile)"
    from r obtain new where new: "state_of_mods (hash_fn ev) (files eng) profile ms [] = Inr new"
        "ch = compare_states ?cur new"
      by (auto simp: calculate_changes_def Let_def split: sum.splits)
    have "distinct (map fst new)" using state_of_mods_distinct [OF _ new(1)] by simp
    from compare_states_empty [OF this, of ?cur] show
      "(to_add ch = [] \<and> to_update ch = [] \<and> to_remove ch = [])
          \<longleftrightarrow> (\<exists>new_state. state_of_mods (hash_fn ev) (files eng) profile ms [] = Inr new_state
                 \<and> map_of new_state = map_of ?cur)"
      using new by auto
  qed
  show ?thesis using ro em by simp
qed

text \<open>C7 (as amended) at an engine whose stored state matches the profile's mod: nothing
  to add, update or remove.\<close>

theorem calculate_changes_read_only_witness:
  "fst (calculate_changes toy_env synced_engine profile_p [mod_m])
     = Inr \<lparr>to_add = [], to_update = [], to_remove = []\<rparr>
   \<and> snd (calculate_changes toy_env synced_engine profile_p [mod_m]) = synced_engine
   \<and> (\<exists>new_state.
         state_of_mods (hash_fn toy_env) (files synced_engine) profile_p [mod_m] [] = Inr new_state
         \<and> map_of new_state
             = map_of (get_deployment_state (db_rows synced_engine) (profile_name profile_p)))"
proof -
  have r: "fst (calculate_changes toy_env synced_engine profile_p [mod_m])
     = Inr \<lparr>to_add = [], to_update = [], to_remove = []\<rparr>"
    by code_simp
  from calculate_changes_read_only [of toy_env synced_engine profile_p "[mod_m]"] r
  show ?thesis by auto
qed

text \<open>
  C7 (as stated) fails: with nothing deployed yet, the first call reports the mod's file
  under \<open>to_add\<close>, and so does a second call made right after it, since the first
  call has stored nothing.
\<close>

theorem calculate_changes_twice_counterexample:
  "fst (calculate_changes toy_env
          (snd (calculate_changes toy_env fresh_engine profile_p [mod_m])) profile_p [mod_m])
     = Inr \<lparr>to_add = [dll_a], to_update = [], to_remove = []\<rparr>"
  by code_simp


subsection \<open>\<open>_remove_file\<close>\<close>

lemma map_of_fs_remove_same: "map_of (fs_remove fs p) p = None"
  by (induction fs) (auto simp: fs_remove_def)

lemma map_of_fs_remove_other: "q \<noteq> p \<Longrightarrow> map_of (fs_remove fs p) q = map_of fs q"
  by (induction fs) (auto simp: fs_remove_def)

lemma lookup_fs_remove_other: "q \<noteq> p \<Longrightarrow> lookup (fs_remove fs p) q = lookup fs q"
  by (simp add: lookup_def map_of_fs_remove_other)

lemma iterdir_fs_remove: "iterdir (fs_remove fs p) d = filter (\<lambda>q. q \<noteq> p) (iterdir fs d)"
  by (induction fs) (auto simp: iterdir_def fs_remove_def)

lemma not_prefix_butlast: "p \<noteq> [] \<Longrightarrow> \<not> prefix p (butlast p)"
proof
  assume "p \<noteq> []" "prefix p (butlast p)"
  then have "length p \<le> length (butlast p)" using prefix_length_le by blast
  then show False using \<open>p \<noteq> []\<close> by (cases p rule: rev_cases) auto
qed

lemma prefix_butlast_trans: "prefix q (butlast p) \<Longrightarrow> prefix q p"
proof -
  assume "prefix q (butlast p)"
  then show "prefix q p" using prefixeq_butlast [of p] by (rule prefix_order.trans)
qed

lemma strict_prefix_butlast: "strict_prefix d p \<Longrightarrow> prefix d (butlast p)"
proof -
  assume "strict_prefix d p"
  then obtain z zs where "p = d @ z # zs" by (rule strict_prefixE')
  then have "butlast p = d @ butlast (z # zs)" by (simp add: butlast_append)
  then show ?thesis by simp
qed

lemma child_on_path:
  assumes "prefix c p" "c \<noteq> []" "p \<noteq> []" "butlast c = butlast p"
  shows "c = p"
proof -
  have "length (butlast c) = length (butlast p)" using assms(4) by simp
  then have "length c = length p"
    using assms(2,3) by (cases c rule: rev_cases; cases p rule: rev_cases) auto
  then show ?thesis using assms(1) by (auto simp: prefix_def)
qed

lemma walk_frame:
  "\<not> prefix q p \<Longrightarrow> map_of (remove_empty_parents fs p) q = map_of fs q"
proof (induction fs p rule: remove_empty_parents.induct)
  case (1 fs parent)
  show ?case
  proof (cases "lookup fs parent = Some Dir \<and> iterdir fs parent = [] \<and> parent \<noteq> []")
    case True
    then have unf: "remove_empty_parents fs parent
        = remove_empty_parents (fs_remove fs parent) (butlast parent)"
      by (subst remove_empty_parents.simps) simp
    have "\<not> prefix q (butlast parent)" using "1.prems" prefix_butlast_trans by blast
    then have "map_of (remove_empty_parents (fs_remove fs parent) (butlast parent)) q
        = map_of (fs_remove fs parent) q"
      using "1.IH" [of Dir] True by simp
    moreover have "q \<noteq> parent" using "1.prems" by auto
    ultimately show ?thesis using unf by (simp add: map_of_fs_remove_other)
  next
    case False
    then have "remove_empty_parents fs parent = fs"
      by (subst remove_empty_parents.simps) (auto split: option.splits node.splits)
    then show ?thesis by simp
  qed
qed

lemma walk_stops:
  "prefix d p \<Longrightarrow> c \<in> set (iterdir fs d) \<Longrightarrow> \<not> prefix c p \<Longrightarrow> prefix e d \<Longrightarrow>
   map_of (remove_empty_parents fs p) e = map_of fs e"
proof (induction fs p rule: remove_empty_parents.induct)
  case (1 fs parent)
  show ?case
  proof (cases "lookup fs parent = Some Dir \<and> iterdir fs parent = [] \<and> parent \<noteq> []")
    case True
    then have unf: "remove_empty_parents fs parent
        = remove_empty_parents (fs_remove fs parent) (butlast parent)"
      by (subst remove_empty_parents.simps) simp
    have dne: "d \<noteq> parent" using "1.prems"(2) True by auto
    then have sp: "strict_prefix d parent" using "1.prems"(1) by (simp add: strict_prefix_def)
    then have p1: "prefix d (butlast parent)" by (rule strict_prefix_butlast)
    have cne: "c \<noteq> parent" using "1.prems"(3) by auto
    then have p2: "c \<in> set (iterdir (fs_remove fs parent) d)"
      using "1.prems"(2) by (simp add: iterdir_fs_remove)
    have p3: "\<not> prefix c (butlast parent)" using "1.prems"(3) prefix_butlast_trans by blast
    have "map_of (remove_empty_parents (fs_remove fs parent) (butlast parent)) e
        = map_of (fs_remove fs parent) e"
      using "1.IH" [of Dir, OF _ _ _ _ p1 p2 p3 "1.prems"(4)] True by simp
    moreover have "e \<noteq> parent"
      using "1.prems"(4) sp by (metis prefix_order.antisym strict_prefix_def)
    ultimately show ?thesis using unf by (simp add: map_of_fs_remove_other)
  next
    case False
    then have "remove_empty_parents fs parent = fs"
      by (subst remove_empty_parents.simps) (auto split: option.splits node.splits)
    then show ?thesis by simp
  qed
qed

lemma walk_removes:
  "d \<noteq> [] \<Longrightarrow> prefix d p \<Longrightarrow>
   (\<forall>e. prefix d e \<and> prefix e p \<longrightarrow> lookup fs e = Some Dir) \<Longrightarrow>
   iterdir fs p = [] \<Longrightarrow>
   (\<forall>e c. prefix d e \<and> strict_prefix e p \<and> c \<in> set (iterdir fs e) \<longrightarrow> prefix c p) \<Longrightarrow>
   map_of (remove_empty_parents fs p) d = None"
proof (induction fs p rule: remove_empty_parents.induct)
  case (1 fs parent)
  note dne = "1.prems"(1) and pre = "1.prems"(2) and dirs = "1.prems"(3)
    and empty = "1.prems"(4) and only = "1.prems"(5)
  have pne: "parent \<noteq> []" using dne pre by auto
  have isdir: "lookup fs parent = Some Dir" using dirs pre by simp
  have unf: "remove_empty_parents fs parent
      = remove_empty_parents (fs_remove fs parent) (butlast parent)"
    using isdir empty pne by (subst remove_empty_parents.simps) simp
  let ?fs' = "fs_remove fs parent" and ?p' = "butlast parent"
  show ?case
  proof (cases "d = parent")
    case True
    have "map_of (remove_empty_parents ?fs' ?p') parent = map_of ?fs' parent"
      using not_prefix_butlast [OF pne] by (rule walk_frame)
    then show ?thesis using unf True by (simp add: map_of_fs_remove_same)
  next
    case False
    then have sp: "strict_prefix d parent" using pre by (simp add: strict_prefix_def)
    then have p1: "prefix d ?p'" by (rule strict_prefix_butlast)
    have sp': "strict_prefix ?p' parent"
      using pne prefixeq_butlast [of parent] not_prefix_butlast [OF pne]
      by (auto simp: strict_prefix_def)
    have c1: "\<forall>e. prefix d e \<and> prefix e ?p' \<longrightarrow> lookup ?fs' e = Some Dir"
    proof (intro allI impI)
      fix e assume e: "prefix d e \<and> prefix e ?p'"
      then have "prefix e parent" using prefix_butlast_trans by blast
      moreover have "e \<noteq> parent" using e not_prefix_butlast [OF pne] by auto
      ultimately show "lookup ?fs' e = Some Dir"
        using dirs e by (simp add: lookup_fs_remove_other)
    qed
    have c2: "iterdir ?fs' ?p' = []"
    proof -
      have "\<And>c. c \<in> set (iterdir fs ?p') \<Longrightarrow> c = parent"
      proof -
        fix c assume c: "c \<in> set (iterdir fs ?p')"
        then have "prefix c parent" using only p1 sp' by blast
        moreover have "c \<noteq> []" "butlast c = ?p'" using c by (auto simp: iterdir_def)
        ultimately show "c = parent" using child_on_path [of c parent] pne by blast
      qed
      then have "filter (\<lambda>q. q \<noteq> parent) (iterdir fs ?p') = []"
        by (simp add: filter_empty_conv)
      then show ?thesis by (simp add: iterdir_fs_remove)
    qed
    have c3: "\<forall>e c. prefix d e \<and> strict_prefix e ?p' \<and> c \<in> set (iterdir ?fs' e) \<longrightarrow> prefix c ?p'"
    proof (intro allI impI)
      fix e c assume a: "prefix d e \<and> strict_prefix e ?p' \<and> c \<in> set (iterdir ?fs' e)"
      from a have "strict_prefix e ?p'" by blast
      then have se: "strict_prefix e parent" using sp' by (rule prefix_order.less_trans)
      have ci: "c \<in> set (iterdir fs e)" and cn: "c \<noteq> parent"
        using a by (simp_all add: iterdir_fs_remove)
      from a have "prefix d e" by blast
      then have "prefix c parent" using only se ci by blast
      then have "prefix c parent" "c \<noteq> parent" using cn by blast+
      then have "strict_prefix c parent" by (simp add: strict_prefix_def)
      then show "prefix c ?p'" by (rule strict_prefix_butlast)
    qed
    have "map_of (remove_empty_parents ?fs' ?p') d = None"
      using "1.IH" [of Dir, OF isdir _ _ pne dne p1 c1 c2 c3] empty by simp
    then show ?thesis using unf by simp
  qed
qed

text \<open>
  C8 (as amended). After deleting a deployed file, the helper walks upward from the
  file's directory and removes directories for as long as they are empty. Nothing but
  the file and its ancestors is touched. A directory that holds another entry stops the
  walk: it and everything above it stay. The helper knows no target root: every
  ancestor from which only the path to the file descends is removed, the target root
  included, up to the first directory with another entry or the filesystem root.
\<close>

theorem remove_file_walk:
  assumes "lookup fs f = Some (File c)"
  shows "map_of (remove_file fs f) f = None
    \<and> (\<forall>q. \<not> prefix q f \<longrightarrow> map_of (remove_file fs f) q = map_of fs q)
    \<and> (\<forall>d child e. strict_prefix d f \<and> child \<in> set (iterdir fs d) \<and> \<not> prefix child f
            \<and> prefix e d \<longrightarrow> map_of (remove_file fs f) e = map_of fs e)
    \<and> (\<forall>d. d \<noteq> [] \<and> strict_prefix d f
            \<and> (\<forall>e. prefix d e \<and> strict_prefix e f \<longrightarrow>
                   lookup fs e = Some Dir \<and> (\<forall>child \<in> set (iterdir fs e). prefix child f))
          \<longrightarrow> map_of (remove_file fs f) d = None)"
proof -
  let ?fs1 = "fs_remove fs f" and ?p = "butlast f"
  have fne: "f \<noteq> []" using assms by (auto simp: lookup_def split: if_splits)
  have rf: "remove_file fs f = remove_empty_parents ?fs1 ?p"
    using assms by (simp add: remove_file_def path_exists_def unlink_def)
  have npre: "\<not> prefix f ?p" using fne by (rule not_prefix_butlast)
  have a: "map_of (remove_file fs f) f = None"
    unfolding rf using walk_frame [OF npre] by (simp add: map_of_fs_remove_same)
  have b: "\<forall>q. \<not> prefix q f \<longrightarrow> map_of (remove_file fs f) q = map_of fs q"
  proof (intro allI impI)
    fix q assume q: "\<not> prefix q f"
    then have "\<not> prefix q ?p" using prefix_butlast_trans by blast
    then have "map_of (remove_empty_parents ?fs1 ?p) q = map_of ?fs1 q" by (rule walk_frame)
    moreover have "q \<noteq> f" using q by auto
    ultimately show "map_of (remove_file fs f) q = map_of fs q"
      unfolding rf by (simp add: map_of_fs_remove_other)
  qed
  have c: "\<forall>d child e. strict_prefix d f \<and> child \<in> set (iterdir fs d) \<and> \<not> prefix child f
            \<and> prefix e d \<longrightarrow> map_of (remove_file fs f) e = map_of fs e"
  proof (intro allI impI)
    fix d child e
    assume h: "strict_prefix d f \<and> child \<in> set (iterdir fs d) \<and> \<not> prefix child f \<and> prefix e d"
    then have sd: "strict_prefix d f" and ch: "child \<in> set (iterdir fs d)"
      and np: "\<not> prefix child f" and ed: "prefix e d" by blast+
    have p1: "prefix d ?p" using sd by (rule strict_prefix_butlast)
    have "child \<noteq> f" using np by auto
    then have p2: "child \<in> set (iterdir ?fs1 d)" using ch by (simp add: iterdir_fs_remove)
    have p3: "\<not> prefix child ?p" using np prefix_butlast_trans by blast
    have "map_of (remove_empty_parents ?fs1 ?p) e = map_of ?fs1 e"
      using p1 p2 p3 ed by (rule walk_stops)
    moreover have "e \<noteq> f" using ed sd by (metis prefix_order.antisym strict_prefix_def)
    ultimately show "map_of (remove_file fs f) e = map_of fs e"
      unfolding rf by (simp add: map_of_fs_remove_other)
  qed
  have d: "\<forall>d. d \<noteq> [] \<and> strict_prefix d f
            \<and> (\<forall>e. prefix d e \<and> strict_prefix e f \<longrightarrow>
                   lookup fs e = Some Dir \<and> (\<forall>child \<in> set (iterdir fs e). prefix child f))
          \<longrightarrow> map_of (remove_file fs f) d = None"
  proof (intro allI impI)
    fix d
    assume h: "d \<noteq> [] \<and> strict_prefix d f
            \<and> (\<forall>e. prefix d e \<and> strict_prefix e f \<longrightarrow>
                   lookup fs e = Some Dir \<and> (\<forall>child \<in> set (iterdir fs e). prefix child f))"
    then have dne: "d \<noteq> []" and sd: "strict_prefix d f"
      and chain: "\<And>e. prefix d e \<Longrightarrow> strict_prefix e f \<Longrightarrow> lookup fs e = Some Dir"
      and only: "\<And>e child. prefix d e \<Longrightarrow> strict_prefix e f \<Longrightarrow> child \<in> set (iterdir fs e)
                  \<Longrightarrow> prefix child f"
      by blast+
    have p1: "prefix d ?p" using sd by (rule strict_prefix_butlast)
    have below: "\<And>e. prefix e ?p \<Longrightarrow> strict_prefix e f"
    proof -
      fix e assume e: "prefix e ?p"
      then have "prefix e f" by (rule prefix_butlast_trans)
      moreover have "e \<noteq> f" using e npre by auto
      ultimately show "strict_prefix e f" by (simp add: strict_prefix_def)
    qed
    have c1: "\<forall>e. prefix d e \<and> prefix e ?p \<longrightarrow> lookup ?fs1 e = Some Dir"
    proof (intro allI impI)
      fix e assume e: "prefix d e \<and> prefix e ?p"
      then have se: "strict_prefix e f" using below by blast
      then have "lookup fs e = Some Dir" using chain e by blast
      moreover have "e \<noteq> f" using se by (simp add: strict_prefix_def)
      ultimately show "lookup ?fs1 e = Some Dir" by (simp add: lookup_fs_remove_other)
    qed
    have c2: "iterdir ?fs1 ?p = []"
    proof -
      have "\<And>ch. ch \<in> set (iterdir fs ?p) \<Longrightarrow> ch = f"
      proof -
        fix ch assume ch: "ch \<in> set (iterdir fs ?p)"
        have "strict_prefix ?p f" using below by blast
        then have "prefix ch f" using only p1 ch by blast
        moreover have "ch \<noteq> []" "butlast ch = ?p" using ch by (auto simp: iterdir_def)
        ultimately show "ch = f" using child_on_path [of ch f] fne by blast
      qed
      then have "filter (\<lambda>q. q \<noteq> f) (iterdir fs ?p) = []" by (simp add: filter_empty_conv)
      then show ?thesis by (simp add: iterdir_fs_remove)
    qed
    have c3: "\<forall>e ch. prefix d e \<and> strict_prefix e ?p \<and> ch \<in> set (iterdir ?fs1 e) \<longrightarrow> prefix ch ?p"
    proof (intro allI impI)
      fix e ch assume a: "prefix d e \<and> strict_prefix e ?p \<and> ch \<in> set (iterdir ?fs1 e)"
      then have "prefix e ?p" by (simp add: strict_prefix_def)
      then have se: "strict_prefix e f" by (rule below)
      have ci: "ch \<in> set (iterdir fs e)" and cn: "ch \<noteq> f"
        using a by (simp_all add: iterdir_fs_remove)
      from a have "prefix d e" by blast
      then have "prefix ch f" using only se ci by blast
      then have "strict_prefix ch f" using cn by (simp add: strict_prefix_def)
      then show "prefix ch ?p" by (rule strict_prefix_butlast)
    qed
    have "map_of (remove_empty_parents ?fs1 ?p) d = None"
      using dne p1 c1 c2 c3 by (rule walk_removes)
    then show "map_of (remove_file fs f) d = None" unfolding rf .
  qed
  from a b c d show ?thesis by blast
qed

text \<open>C8 (as amended) at a mod directory with two files: removing one keeps the
  directory and the other file.\<close>

theorem remove_file_walk_witness:
  "lookup deployed_fs2 dll_a = Some (File ''abc'')
   \<and> map_of (remove_file deployed_fs2 dll_a) dll_a = None
   \<and> dll_b \<in> set (iterdir deployed_fs2 [''game'', ''BepInEx'', ''plugins'', ''x-M''])
   \<and> map_of (remove_file deployed_fs2 dll_a) [''game'', ''BepInEx'', ''plugins'', ''x-M''] = Some Dir
   \<and> map_of (remove_file deployed_fs2 dll_a) dll_b = Some (File ''xyz'')"
proof -
  let ?xm = "[''game'', ''BepInEx'', ''plugins'', ''x-M'']"
  have h: "lookup deployed_fs2 dll_a = Some (File ''abc'')" by code_simp
  note w = remove_file_walk [OF h]
  have a: "map_of (remove_file deployed_fs2 dll_a) dll_a = None" using w by blast
  have ch: "dll_b \<in> set (iterdir deployed_fs2 ?xm)" by code_simp
  have sp: "strict_prefix ?xm dll_a" by (simp add: dll_a_def strict_prefix_def)
  have np: "\<not> prefix dll_b dll_a" by (simp add: dll_a_def dll_b_def)
  have "map_of (remove_file deployed_fs2 dll_a) ?xm = map_of deployed_fs2 ?xm"
    using w sp ch np by blast
  moreover have "map_of deployed_fs2 ?xm = Some Dir" by code_simp
  moreover have "map_of (remove_file deployed_fs2 dll_a) dll_b = map_of deployed_fs2 dll_b"
    using w np by blast
  moreover have "map_of deployed_fs2 dll_b = Some (File ''xyz'')" by code_simp
  ultimately show ?thesis using h a ch by simp
qed


text \<open>
  C8 (as stated) fails: when the deployed file is all that the target root \<open>game\<close>
  holds, removing the file removes the plugin directories and then the target root
  itself.
\<close>

theorem remove_file_root_counterexample:
  "path_exists deployed_fs [''game''] \<and> lookup deployed_fs dll_a = Some (File ''abc'')
   \<and> remove_file deployed_fs dll_a = []
   \<and> \<not> path_exists (remove_file deployed_fs dll_a) [''game'']"
  by code_simp


section \<open>Properties of version comparison\<close>

lemma map_int_Some:
  "(\<forall>p \<in> set ps. py_int p \<noteq> None) \<Longrightarrow> map_int ps = Some (map (\<lambda>p. the (py_int p)) ps)"
  by (induction ps) auto

lemma map_int_None:
  "p \<in> set ps \<Longrightarrow> py_int p = None \<Longrightarrow> map_int ps = None"
  by (induction ps) (auto split: option.splits)

lemma tuple_less_lexord:
  "tuple_less xs ys \<longleftrightarrow> (xs, ys) \<in> lexord {(a, b). a < b}"
  by (induction xs ys rule: tuple_less.induct) auto

lemma tuple_less_irrefl: "\<not> tuple_less xs xs"
  by (induction xs) auto

lemma tuple_less_total: "\<not> tuple_less xs ys \<Longrightarrow> \<not> tuple_less ys xs \<Longrightarrow> xs = ys"
  by (induction xs ys rule: tuple_less.induct) (auto split: if_splits)

lemma tuple_less_asym: "tuple_less xs ys \<Longrightarrow> \<not> tuple_less ys xs"
  by (induction xs ys rule: tuple_less.induct) (auto split: if_splits)

text \<open>
  C10 (as amended). Version comparison splits each version string on \<open>.\<close> and compares
  the results as integer tuples in lexicographic order. When every component is numeric
  the tuple holds the components' values; when any component is not numeric the whole
  version counts as \<open>(0, 0, 0)\<close>, whatever its other components are.
\<close>

theorem compare_versions_whole_string_fallback:
  "((\<forall>p \<in> set (split_on CHR ''.'' v). py_int p \<noteq> None) \<longrightarrow>
      normalize_v v = map (\<lambda>p. the (py_int p)) (split_on CHR ''.'' v))
   \<and> ((\<exists>p \<in> set (split_on CHR ''.'' v). py_int p = None) \<longrightarrow> normalize_v v = [0, 0, 0])
   \<and> (compare_versions v1 v2 = - 1 \<longleftrightarrow> (normalize_v v1, normalize_v v2) \<in> lexord {(a, b). a < b})
   \<and> (compare_versions v1 v2 = 1 \<longleftrightarrow> (normalize_v v2, normalize_v v1) \<in> lexord {(a, b). a < b})
   \<and> (compare_versions v1 v2 = 0 \<longleftrightarrow> normalize_v v1 = normalize_v v2)"
proof -
  have a: "(\<forall>p \<in> set (split_on CHR ''.'' v). py_int p \<noteq> None) \<longrightarrow>
      normalize_v v = map (\<lambda>p. the (py_int p)) (split_on CHR ''.'' v)"
    by (simp add: normalize_v_def map_int_Some)
  have b: "(\<exists>p \<in> set (split_on CHR ''.'' v). py_int p = None) \<longrightarrow> normalize_v v = [0, 0, 0]"
    by (auto simp: normalize_v_def map_int_None)
  have c: "compare_versions v1 v2 = - 1 \<longleftrightarrow> (normalize_v v1, normalize_v v2) \<in> lexord {(a, b). a < b}"
    by (simp add: compare_versions_def Let_def tuple_less_lexord [symmetric])
  have d: "compare_versions v1 v2 = 1 \<longleftrightarrow> (normalize_v v2, normalize_v v1) \<in> lexord {(a, b). a < b}"
    using tuple_less_asym [of "normalize_v v1" "normalize_v v2"]
    by (auto simp: compare_versions_def Let_def tuple_less_lexord [symmetric])
  have e: "compare_versions v1 v2 = 0 \<longleftrightarrow> normalize_v v1 = normalize_v v2"
    using tuple_less_total [of "normalize_v v1" "normalize_v v2"] tuple_less_irrefl [of "normalize_v v2"]
    by (auto simp: compare_versions_def Let_def)
  from a b c d e show ?thesis by blast
qed

lemma py_int_beta: "py_int ''beta'' = None"
  by (simp add: py_int_def strip_def is_space_def digit_of_def)

lemma normalize_1_2_beta: "normalize_v ''1.2.beta'' = [0, 0, 0]"
  by (simp add: normalize_v_def py_int_def strip_def is_space_def digit_of_def)

lemma normalize_1_1_9: "normalize_v ''1.1.9'' = [1, 1, 9]"
  by (simp add: normalize_v_def py_int_def strip_def is_space_def digit_of_def)

lemma normalize_1_2_0: "normalize_v ''1.2.0'' = [1, 2, 0]"
  by (simp add: normalize_v_def py_int_def strip_def is_space_def digit_of_def)

theorem compare_versions_whole_string_fallback_witness:
  "(\<exists>p \<in> set (split_on CHR ''.'' ''1.2.beta''). py_int p = None)
   \<and> normalize_v ''1.2.beta'' = [0, 0, 0]
   \<and> split_on CHR ''.'' ''1.1.9'' = [''1'', ''1'', ''9'']
   \<and> py_int ''1'' = Some 1 \<and> py_int ''9'' = Some 9
   \<and> normalize_v ''1.1.9'' = [1, 1, 9]
   \<and> compare_versions ''1.2.beta'' ''1.1.9'' = - 1"
proof -
  have h1: "\<exists>p \<in> set (split_on CHR ''.'' ''1.2.beta''). py_int p = None"
    using py_int_beta by simp
  have h2: "\<forall>p \<in> set (split_on CHR ''.'' ''1.1.9''). py_int p \<noteq> None"
    by (simp add: py_int_def strip_def is_space_def digit_of_def)
  have n1: "normalize_v ''1.2.beta'' = [0, 0, 0]"
    using compare_versions_whole_string_fallback [of "''1.2.beta''"] h1 by blast
  have n2: "normalize_v ''1.1.9'' = map (\<lambda>p. the (py_int p)) (split_on CHR ''.'' ''1.1.9'')"
    using compare_versions_whole_string_fallback [of "''1.1.9''"] h2 by blast
  have n2': "normalize_v ''1.1.9'' = [1, 1, 9]"
    unfolding n2 by (simp add: py_int_def strip_def is_space_def digit_of_def)
  have "(normalize_v ''1.2.beta'', normalize_v ''1.1.9'') \<in> lexord {(a, b). a < b}"
    unfolding n1 n2' by simp
  then have "compare_versions ''1.2.beta'' ''1.1.9'' = - 1"
    using compare_versions_whole_string_fallback [of "''1.2.beta''" "''1.2.beta''" "''1.1.9''"]
    by blast
  moreover have "split_on CHR ''.'' ''1.1.9'' = [''1'', ''1'', ''9'']" by simp
  moreover have "py_int ''1'' = Some 1" "py_int ''9'' = Some 9"
    by (simp_all add: py_int_def strip_def is_space_def digit_of_def)
  ultimately show ?thesis using h1 n1 n2' by blast
qed

text \<open>
  C10 (as stated) fails: \<open>1.2.beta\<close> does not compare as \<open>(1, 2, 0)\<close>. The code ranks it
  below \<open>1.1.9\<close> and below \<open>1.2.0\<close>, where the component-wise reading makes it greater
  than the first and equal to the second.
\<close>

theorem compare_versions_beta_counterexample:
  "compare_versions ''1.2.beta'' ''1.1.9'' = - 1
   \<and> compare_versions_spec ''1.2.beta'' ''1.1.9'' = 1
   \<and> compare_versions ''1.2.beta'' ''1.2.0'' = - 1
   \<and> compare_versions_spec ''1.2.beta'' ''1.2.0'' = 0"
  by (simp add: compare_versions_def compare_versions_spec_def normalize_spec_def
      normalize_1_2_beta normalize_1_1_9 normalize_1_2_0
      py_int_def strip_def is_space_def digit_of_def)


end
